theory Spec2Isabelle
  imports Main
begin

section \<open>JavaScript values used by the plan items\<close>

text \<open>
  A plan item is a JavaScript object. Its \<^verbatim>\<open>name\<close>, \<^verbatim>\<open>type\<close> and
  \<^verbatim>\<open>groupNumber\<close> fields are read with \<^verbatim>\<open>||\<close>, \<^verbatim>\<open>&&\<close> and
  \<^verbatim>\<open>String(...)\<close>, so they are kept as JavaScript values. A string is a list of
  code units below 256; numbers are integers (sets, seconds, group numbers), with
  \<^verbatim>\<open>NaN\<close> apart. Doubles that are not integers, and integers so large that
  \<^verbatim>\<open>String\<close> prints them with an exponent, lie outside this model.
\<close>

datatype jsval = JUndefined | JNull | JBool bool | JNum int | JNaN | JStr string

text \<open>
  The fields \<^verbatim>\<open>sets\<close> and \<^verbatim>\<open>restSec\<close> are only ever read as
  \<^verbatim>\<open>Number(item.sets)\<close> and \<^verbatim>\<open>Number(item.restSec)\<close>. The record below holds
  the result of that conversion: \<open>NaN\<close> for a missing or non-numeric field.
\<close>

datatype jsnum = NaN | Num int

fun truthy :: "jsval \<Rightarrow> bool" where
  "truthy JUndefined = False"
| "truthy JNull = False"
| "truthy (JBool b) = b"
| "truthy (JNum n) = (n \<noteq> 0)"
| "truthy JNaN = False"
| "truthy (JStr s) = (s \<noteq> [])"

definition digitChar :: "nat \<Rightarrow> char" where
  "digitChar d = ''0123456789'' ! d"

fun digitsOf :: "nat \<Rightarrow> string" where
  "digitsOf n = (if n < 10 then [digitChar n] else digitsOf (n div 10) @ [digitChar (n mod 10)])"

declare digitsOf.simps [simp del]

definition showInt :: "int \<Rightarrow> string" where
  "showInt n = (if n < 0 then ''-'' @ digitsOf (nat (- n)) else digitsOf (nat n))"

text \<open>\<^verbatim>\<open>String(v)\<close>.\<close>

fun toString :: "jsval \<Rightarrow> string" where
  "toString JUndefined = ''undefined''"
| "toString JNull = ''null''"
| "toString (JBool b) = (if b then ''true'' else ''false'')"
| "toString (JNum n) = showInt n"
| "toString JNaN = ''NaN''"
| "toString (JStr s) = s"

text \<open>The white space that \<^verbatim>\<open>String.prototype.trim\<close> removes, among code units below 256.\<close>

definition isWhite :: "char \<Rightarrow> bool" where
  "isWhite c = (c \<in> set [CHR 0x09, CHR 0x0A, CHR 0x0B, CHR 0x0C, CHR 0x0D, CHR 0x20, CHR 0xA0])"

definition trim :: "string \<Rightarrow> string" where
  "trim s = rev (dropWhile isWhite (rev (dropWhile isWhite s)))"

text \<open>\<^verbatim>\<open>a || b\<close> and \<^verbatim>\<open>a && b\<close> on values.\<close>

definition jsOr :: "jsval \<Rightarrow> jsval \<Rightarrow> jsval" where
  "jsOr a b = (if truthy a then a else b)"

definition jsAnd :: "jsval \<Rightarrow> jsval \<Rightarrow> jsval" where
  "jsAnd a b = (if truthy a then b else a)"

text \<open>\<^verbatim>\<open>Number(x) || d\<close>: \<^verbatim>\<open>NaN\<close> and \<^verbatim>\<open>0\<close> are falsy.\<close>

fun numOr :: "jsnum \<Rightarrow> int \<Rightarrow> int" where
  "numOr NaN d = d"
| "numOr (Num n) d = (if n = 0 then d else n)"

text \<open>\<^verbatim>\<open>map.get(k) || 0\<close> on a map of numbers.\<close>

fun getOr0 :: "int option \<Rightarrow> int" where
  "getOr0 None = 0"
| "getOr0 (Some v) = (if v = 0 then 0 else v)"

section \<open>Plan items and the executor state\<close>

record item =
  name :: jsval
  itemType :: jsval
  sets :: jsnum
  restSec :: jsnum
  groupNumber :: jsval

text \<open>
  \<^verbatim>\<open>planItems[i]\<close>: \<^verbatim>\<open>undefined\<close> outside the array. The elements of the array
  are objects (the plan-item records of the data model). An index is a natural number;
  the indices outside the plan are those from its length on.
\<close>

definition itemAt :: "item list \<Rightarrow> nat \<Rightarrow> item option" where
  "itemAt items i = (if i < length items then Some (items ! i) else None)"

record executor =
  planItems :: "item list"
  completedSets :: "nat \<rightharpoonup> int"

text \<open>\<^verbatim>\<open>initializeCompletionState\<close>: every index of the plan is set to 0.\<close>

definition initializeCompletionState :: "executor \<Rightarrow> executor" where
  "initializeCompletionState e =
     e\<lparr>completedSets := fold (\<lambda>index m. m(index \<mapsto> 0)) [0..<length (planItems e)] (completedSets e)\<rparr>"

text \<open>The constructor.\<close>

definition newExecutor :: "item list \<Rightarrow> executor" where
  "newExecutor items = initializeCompletionState \<lparr>planItems = items, completedSets = Map.empty\<rparr>"

text \<open>The test of \<^verbatim>\<open>findNextIncompleteExercise\<close> at index \<open>i\<close> of the plan.\<close>

definition incompleteAt :: "executor \<Rightarrow> nat \<Rightarrow> bool" where
  "incompleteAt e i =
     (let item = planItems e ! i;
          totalSets = numOr (sets item) 1;
          completed = getOr0 (completedSets e i)
      in completed < totalSets)"

function findNextFrom :: "executor \<Rightarrow> nat \<Rightarrow> nat option" where
  "findNextFrom e i =
     (if i < length (planItems e)
      then (if incompleteAt e i then Some i else findNextFrom e (i + 1))
      else None)"
  by pat_completeness auto
termination
  by (relation "measure (\<lambda>(e, i). length (planItems e) - i)") auto

declare findNextFrom.simps [simp del]

definition findNextIncompleteExercise :: "executor \<Rightarrow> nat option" where
  "findNextIncompleteExercise e = findNextFrom e 0"

text \<open>
  The identifier an item is compared by in \<^verbatim>\<open>getGroupExercises\<close>:
  \<^verbatim>\<open>(item && item.groupNumber) ? String(item.groupNumber).trim() : ''\<close>.
\<close>

definition itemGroupId :: "item option \<Rightarrow> string" where
  "itemGroupId it =
     (case it of
        None \<Rightarrow> []
      | Some item \<Rightarrow> if truthy (groupNumber item) then trim (toString (groupNumber item)) else [])"

function groupLoop :: "item list \<Rightarrow> string \<Rightarrow> nat \<Rightarrow> nat list \<Rightarrow> nat list" where
  "groupLoop items groupId i indices =
     (if i < length items
      then groupLoop items groupId (i + 1)
             (if itemGroupId (itemAt items i) = groupId then indices @ [i] else indices)
      else indices)"
  by pat_completeness auto
termination
  by (relation "measure (\<lambda>(items, groupId, i, indices). length items - i)") auto

declare groupLoop.simps [simp del]

definition getGroupExercises :: "executor \<Rightarrow> jsval \<Rightarrow> nat list" where
  "getGroupExercises e groupNum =
     (if groupNum = JNull \<or> groupNum = JUndefined then []
      else let groupId = trim (toString groupNum)
           in if groupId = [] then [] else groupLoop (planItems e) groupId 0 [])"

text \<open>\<^verbatim>\<open>item.groupNumber && String(item.groupNumber).trim()\<close>.\<close>

definition groupKey :: "item \<Rightarrow> jsval" where
  "groupKey item = jsAnd (groupNumber item) (JStr (trim (toString (groupNumber item))))"

definition isGrouped :: "executor \<Rightarrow> nat \<Rightarrow> bool" where
  "isGrouped e itemIndex =
     (case itemAt (planItems e) itemIndex of
        None \<Rightarrow> False
      | Some item \<Rightarrow> truthy (groupKey item))"

definition getTotalSets :: "executor \<Rightarrow> nat \<Rightarrow> int" where
  "getTotalSets e itemIndex =
     (case itemAt (planItems e) itemIndex of
        None \<Rightarrow> 0
      | Some item \<Rightarrow> numOr (sets item) 1)"

definition getCompletedSets :: "executor \<Rightarrow> nat \<Rightarrow> int" where
  "getCompletedSets e itemIndex = getOr0 (completedSets e itemIndex)"

definition getRemainingSets :: "executor \<Rightarrow> nat \<Rightarrow> int" where
  "getRemainingSets e itemIndex =
     (let total = getTotalSets e itemIndex;
          completed = getCompletedSets e itemIndex
      in max 0 (total - completed))"

definition completeSet :: "executor \<Rightarrow> nat \<Rightarrow> executor" where
  "completeSet e itemIndex =
     (let current = getOr0 (completedSets e itemIndex);
          total = getTotalSets e itemIndex
      in if current < total
         then e\<lparr>completedSets := (completedSets e)(itemIndex \<mapsto> current + 1)\<rparr>
         else e)"

definition reset :: "executor \<Rightarrow> executor" where
  "reset e = initializeCompletionState e"

section \<open>Actions\<close>

record memberInfo =
  memberIndex :: nat
  memberName :: jsval
  memberTotalSets :: int
  memberCompletedSets :: int
  memberRemainingSets :: int

text \<open>
  The results of \<^verbatim>\<open>getNextAction\<close>, \<^verbatim>\<open>getNextGroupAction\<close> and
  \<^verbatim>\<open>completeGroupRound\<close>, one constructor for each value of \<^verbatim>\<open>action\<close>:
  \<^item> \<open>ExerciseStart exerciseIndex setNumber isSingleExercise groupSize\<close>;
  \<^item> \<open>GroupSupersetStart groupNumber groupExercises currentExerciseIndex\<close>;
  \<^item> \<open>NextExerciseInGroup exerciseIndex setNumber\<close> (its \<^verbatim>\<open>restSeconds\<close> is \<^verbatim>\<open>null\<close>);
  \<^item> \<open>RestThenContinue exerciseIndex restSeconds lastExerciseIndex\<close>, where
    \<open>exerciseIndex\<close> is \<^verbatim>\<open>groupExercises[0]\<close>, \<open>None\<close> standing for \<^verbatim>\<open>undefined\<close>.
\<close>

datatype action =
    Complete
  | ExerciseStart nat int bool nat
  | GroupSupersetStart string "memberInfo list" nat
  | NextExerciseInGroup nat int
  | RestThenContinue "nat option" int nat
  | GroupComplete

definition groupInfoOf :: "executor \<Rightarrow> nat \<Rightarrow> memberInfo" where
  "groupInfoOf e idx =
     \<lparr>memberIndex = idx,
      memberName = jsOr (name (planItems e ! idx)) (JStr ''Exercise''),
      memberTotalSets = getTotalSets e idx,
      memberCompletedSets = getCompletedSets e idx,
      memberRemainingSets = getRemainingSets e idx\<rparr>"

definition getNextAction :: "executor \<Rightarrow> action" where
  "getNextAction e =
     (case findNextIncompleteExercise e of
        None \<Rightarrow> Complete
      | Some nextIncomplete \<Rightarrow>
          let item = planItems e ! nextIncomplete
          in if \<not> isGrouped e nextIncomplete
             then ExerciseStart nextIncomplete (getCompletedSets e nextIncomplete + 1) True 1
             else let groupNum = groupNumber item;
                      groupExercises = getGroupExercises e groupNum
                  in GroupSupersetStart (trim (toString groupNum))
                       (map (groupInfoOf e) groupExercises) nextIncomplete)"

text \<open>The loop \<^verbatim>\<open>for (const idx of groupExercises) if (remaining > 0) { anyRemaining = true; break; }\<close>.\<close>

fun anyRemaining :: "executor \<Rightarrow> nat list \<Rightarrow> bool" where
  "anyRemaining e [] = False"
| "anyRemaining e (idx # rest) = (if getRemainingSets e idx > 0 then True else anyRemaining e rest)"

text \<open>The second loop of \<^verbatim>\<open>getNextGroupAction\<close>, with its fall-through result.\<close>

fun nextInGroup :: "executor \<Rightarrow> nat list \<Rightarrow> action" where
  "nextInGroup e [] = GroupComplete"
| "nextInGroup e (idx # rest) =
     (if getRemainingSets e idx > 0
      then NextExerciseInGroup idx (getCompletedSets e idx + 1)
      else nextInGroup e rest)"

definition getNextGroupAction :: "executor \<Rightarrow> jsval \<Rightarrow> action" where
  "getNextGroupAction e groupNum =
     (let groupExercises = getGroupExercises e groupNum
      in if \<not> anyRemaining e groupExercises then GroupComplete
         else nextInGroup e groupExercises)"

text \<open>\<^verbatim>\<open>Number(lastItem?.restSec) || 60\<close>.\<close>

definition restSecondsOf :: "item option \<Rightarrow> int" where
  "restSecondsOf lastItem =
     numOr (case lastItem of None \<Rightarrow> NaN | Some item \<Rightarrow> restSec item) 60"

definition completeGroupRound :: "executor \<Rightarrow> nat \<Rightarrow> jsval \<Rightarrow> action" where
  "completeGroupRound e lastExerciseIndex groupNum =
     (let groupExercises = getGroupExercises e groupNum
      in if \<not> anyRemaining e groupExercises then GroupComplete
         else let lastItem = itemAt (planItems e) lastExerciseIndex;
                  restSeconds = restSecondsOf lastItem;
                  firstExerciseInGroup = (case groupExercises of [] \<Rightarrow> None | x # _ \<Rightarrow> Some x)
              in RestThenContinue firstExerciseInGroup restSeconds lastExerciseIndex)"

section \<open>The methods as state transformers\<close>

text \<open>
  The methods again, statement by statement, as functions from the executor before the
  call to the value returned and the executor after it. Every access to a field of
  \<^verbatim>\<open>this\<close> is one of five steps: reading the length of \<^verbatim>\<open>planItems\<close>, reading
  one of its elements (guarded or not), \<^verbatim>\<open>completedSets.get\<close> and
  \<^verbatim>\<open>completedSets.set\<close>. A call of one method by another hands the executor on.
\<close>

text \<open>
  \<^verbatim>\<open>this.planItems.length\<close>; \<^verbatim>\<open>this.planItems[i]\<close> where the source guards against
  an absent item, and where it reads a field of the item at once;
  \<^verbatim>\<open>this.completedSets.get(k)\<close>; \<^verbatim>\<open>this.completedSets.set(k, v)\<close>.
\<close>

definition planLength :: "executor \<Rightarrow> nat \<times> executor" where
  "planLength e = (length (planItems e), e)"

definition planGet :: "nat \<Rightarrow> executor \<Rightarrow> item option \<times> executor" where
  "planGet i e = (itemAt (planItems e) i, e)"

definition planNth :: "nat \<Rightarrow> executor \<Rightarrow> item \<times> executor" where
  "planNth i e = (planItems e ! i, e)"

definition mapGet :: "nat \<Rightarrow> executor \<Rightarrow> int option \<times> executor" where
  "mapGet k e = (completedSets e k, e)"

definition mapSet :: "nat \<Rightarrow> int \<Rightarrow> executor \<Rightarrow> unit \<times> executor" where
  "mapSet k v e = ((), e\<lparr>completedSets := (completedSets e)(k \<mapsto> v)\<rparr>)"

fun initLoop_run :: "nat list \<Rightarrow> executor \<Rightarrow> unit \<times> executor" where
  "initLoop_run [] e = ((), e)"
| "initLoop_run (index # rest) e = (case mapSet index 0 e of (u, e1) \<Rightarrow> initLoop_run rest e1)"

definition initializeCompletionState_run :: "executor \<Rightarrow> unit \<times> executor" where
  "initializeCompletionState_run e = (case planLength e of (n, e1) \<Rightarrow> initLoop_run [0..<n] e1)"

function findNextFrom_run :: "nat \<Rightarrow> executor \<Rightarrow> nat option \<times> executor" where
  "findNextFrom_run i e =
     (case planLength e of (n, e1) \<Rightarrow>
        if i < n
        then (case planNth i e1 of (item, e2) \<Rightarrow>
                let totalSets = numOr (sets item) 1
                in case mapGet i e2 of (got, e3) \<Rightarrow>
                     let completed = getOr0 got
                     in if completed < totalSets then (Some i, e3)
                        else findNextFrom_run (i + 1) e3)
        else (None, e1))"
  by pat_completeness auto
termination
  by (relation "measure (\<lambda>(i, e). length (planItems e) - i)")
     (auto simp: planLength_def planNth_def mapGet_def)

declare findNextFrom_run.simps [simp del]

definition findNextIncompleteExercise_run :: "executor \<Rightarrow> nat option \<times> executor" where
  "findNextIncompleteExercise_run e = findNextFrom_run 0 e"

function groupLoop_run :: "string \<Rightarrow> nat \<Rightarrow> nat list \<Rightarrow> executor \<Rightarrow> nat list \<times> executor" where
  "groupLoop_run groupId i indices e =
     (case planLength e of (n, e1) \<Rightarrow>
        if i < n
        then (case planGet i e1 of (item, e2) \<Rightarrow>
                groupLoop_run groupId (i + 1)
                  (if itemGroupId item = groupId then indices @ [i] else indices) e2)
        else (indices, e1))"
  by pat_completeness auto
termination
  by (relation "measure (\<lambda>(groupId, i, indices, e). length (planItems e) - i)")
     (auto simp: planLength_def planGet_def)

declare groupLoop_run.simps [simp del]

definition getGroupExercises_run :: "jsval \<Rightarrow> executor \<Rightarrow> nat list \<times> executor" where
  "getGroupExercises_run groupNum e =
     (if groupNum = JNull \<or> groupNum = JUndefined then ([], e)
      else let groupId = trim (toString groupNum)
           in if groupId = [] then ([], e) else groupLoop_run groupId 0 [] e)"

definition isGrouped_run :: "nat \<Rightarrow> executor \<Rightarrow> bool \<times> executor" where
  "isGrouped_run itemIndex e =
     (case planGet itemIndex e of (item, e1) \<Rightarrow>
        (case item of None \<Rightarrow> (False, e1) | Some it \<Rightarrow> (truthy (groupKey it), e1)))"

definition getTotalSets_run :: "nat \<Rightarrow> executor \<Rightarrow> int \<times> executor" where
  "getTotalSets_run itemIndex e =
     (case planGet itemIndex e of (item, e1) \<Rightarrow>
        (case item of None \<Rightarrow> (0, e1) | Some it \<Rightarrow> (numOr (sets it) 1, e1)))"

definition getCompletedSets_run :: "nat \<Rightarrow> executor \<Rightarrow> int \<times> executor" where
  "getCompletedSets_run itemIndex e =
     (case mapGet itemIndex e of (got, e1) \<Rightarrow> (getOr0 got, e1))"

definition getRemainingSets_run :: "nat \<Rightarrow> executor \<Rightarrow> int \<times> executor" where
  "getRemainingSets_run itemIndex e =
     (case getTotalSets_run itemIndex e of (totalSets, e1) \<Rightarrow>
        case getCompletedSets_run itemIndex e1 of (completed, e2) \<Rightarrow>
          (max 0 (totalSets - completed), e2))"

definition completeSet_run :: "nat \<Rightarrow> executor \<Rightarrow> unit \<times> executor" where
  "completeSet_run itemIndex e =
     (case mapGet itemIndex e of (got, e1) \<Rightarrow>
        let current = getOr0 got
        in case getTotalSets_run itemIndex e1 of (totalSets, e2) \<Rightarrow>
             if current < totalSets then mapSet itemIndex (current + 1) e2 else ((), e2))"

fun groupInfo_run :: "nat list \<Rightarrow> executor \<Rightarrow> memberInfo list \<times> executor" where
  "groupInfo_run [] e = ([], e)"
| "groupInfo_run (idx # rest) e =
     (case planNth idx e of (item, e1) \<Rightarrow>
        case getTotalSets_run idx e1 of (totalSets, e2) \<Rightarrow>
          case getCompletedSets_run idx e2 of (completed, e3) \<Rightarrow>
            case getRemainingSets_run idx e3 of (remaining, e4) \<Rightarrow>
              case groupInfo_run rest e4 of (infos, e5) \<Rightarrow>
                (\<lparr>memberIndex = idx,
                  memberName = jsOr (name item) (JStr ''Exercise''),
                  memberTotalSets = totalSets,
                  memberCompletedSets = completed,
                  memberRemainingSets = remaining\<rparr> # infos, e5))"

definition getNextAction_run :: "executor \<Rightarrow> action \<times> executor" where
  "getNextAction_run e =
     (case findNextIncompleteExercise_run e of (found, e1) \<Rightarrow>
        (case found of
           None \<Rightarrow> (Complete, e1)
         | Some nextIncomplete \<Rightarrow>
             (case planNth nextIncomplete e1 of (item, e2) \<Rightarrow>
                case isGrouped_run nextIncomplete e2 of (grouped, e3) \<Rightarrow>
                  if \<not> grouped
                  then (case getCompletedSets_run nextIncomplete e3 of (completed, e4) \<Rightarrow>
                          (ExerciseStart nextIncomplete (completed + 1) True 1, e4))
                  else let groupNum = groupNumber item
                       in case getGroupExercises_run groupNum e3 of (groupExercises, e4) \<Rightarrow>
                            case groupInfo_run groupExercises e4 of (infos, e5) \<Rightarrow>
                              (GroupSupersetStart (trim (toString groupNum)) infos nextIncomplete, e5))))"

fun anyRemaining_run :: "nat list \<Rightarrow> executor \<Rightarrow> bool \<times> executor" where
  "anyRemaining_run [] e = (False, e)"
| "anyRemaining_run (idx # rest) e =
     (case getRemainingSets_run idx e of (remaining, e1) \<Rightarrow>
        if remaining > 0 then (True, e1) else anyRemaining_run rest e1)"

fun anyRemainingAll_run :: "nat list \<Rightarrow> bool \<Rightarrow> executor \<Rightarrow> bool \<times> executor" where
  "anyRemainingAll_run [] found e = (found, e)"
| "anyRemainingAll_run (idx # rest) found e =
     (case getRemainingSets_run idx e of (remaining, e1) \<Rightarrow>
        anyRemainingAll_run rest (if remaining > 0 then True else found) e1)"

fun nextInGroup_run :: "nat list \<Rightarrow> executor \<Rightarrow> action \<times> executor" where
  "nextInGroup_run [] e = (GroupComplete, e)"
| "nextInGroup_run (idx # rest) e =
     (case getRemainingSets_run idx e of (remaining, e1) \<Rightarrow>
        if remaining > 0
        then (case getCompletedSets_run idx e1 of (completed, e2) \<Rightarrow>
                case planNth idx e2 of (item, e3) \<Rightarrow>
                  (NextExerciseInGroup idx (completed + 1), e3))
        else nextInGroup_run rest e1)"

definition getNextGroupAction_run :: "jsval \<Rightarrow> executor \<Rightarrow> action \<times> executor" where
  "getNextGroupAction_run groupNum e =
     (case getGroupExercises_run groupNum e of (groupExercises, e1) \<Rightarrow>
        case anyRemainingAll_run groupExercises False e1 of (found, e2) \<Rightarrow>
          if \<not> found then (GroupComplete, e2) else nextInGroup_run groupExercises e2)"

definition completeGroupRound_run :: "nat \<Rightarrow> jsval \<Rightarrow> executor \<Rightarrow> action \<times> executor" where
  "completeGroupRound_run lastExerciseIndex groupNum e =
     (case getGroupExercises_run groupNum e of (groupExercises, e1) \<Rightarrow>
        case anyRemaining_run groupExercises e1 of (found, e2) \<Rightarrow>
          if \<not> found then (GroupComplete, e2)
          else (case planGet lastExerciseIndex e2 of (lastItem, e3) \<Rightarrow>
                  let restSeconds = restSecondsOf lastItem;
                      firstExerciseInGroup = (case groupExercises of [] \<Rightarrow> None | x # _ \<Rightarrow> Some x)
                  in (RestThenContinue firstExerciseInGroup restSeconds lastExerciseIndex, e3)))"

definition reset_run :: "executor \<Rightarrow> unit \<times> executor" where
  "reset_run e = initializeCompletionState_run e"

section \<open>Calls on an executor\<close>

text \<open>
  One constructor for each method a caller may invoke. \<open>invoke\<close> runs the method
  and gives the value it returns and the executor it leaves behind.
\<close>

datatype operation =
    OpGetNextAction
  | OpGetGroupExercises jsval
  | OpIsGrouped nat
  | OpGetNextGroupAction jsval
  | OpCompleteGroupRound nat jsval
  | OpCompleteSet nat
  | OpReset

datatype outcome = Act action | Indices "nat list" | Flag bool | NoValue

fun invoke :: "operation \<Rightarrow> executor \<Rightarrow> outcome \<times> executor" where
  "invoke OpGetNextAction e = (case getNextAction_run e of (a, e1) \<Rightarrow> (Act a, e1))"
| "invoke (OpGetGroupExercises g) e = (case getGroupExercises_run g e of (xs, e1) \<Rightarrow> (Indices xs, e1))"
| "invoke (OpIsGrouped i) e = (case isGrouped_run i e of (b, e1) \<Rightarrow> (Flag b, e1))"
| "invoke (OpGetNextGroupAction g) e = (case getNextGroupAction_run g e of (a, e1) \<Rightarrow> (Act a, e1))"
| "invoke (OpCompleteGroupRound i g) e = (case completeGroupRound_run i g e of (a, e1) \<Rightarrow> (Act a, e1))"
| "invoke (OpCompleteSet i) e = (case completeSet_run i e of (u, e1) \<Rightarrow> (NoValue, e1))"
| "invoke OpReset e = (case reset_run e of (u, e1) \<Rightarrow> (NoValue, e1))"

text \<open>The executor states a caller can reach from the constructor.\<close>

inductive reachable :: "item list \<Rightarrow> executor \<Rightarrow> bool" for items :: "item list" where
  constructed: "reachable items (newExecutor items)"
| invoked: "reachable items e \<Longrightarrow> reachable items (snd (invoke op e))"

text \<open>
  What every reachable state satisfies: the plan is the one given to the constructor,
  each index of the plan has an entry between 0 and its total sets (the entry 0 when that
  total is negative), and no other index has an entry.
\<close>

definition stateOk :: "item list \<Rightarrow> executor \<Rightarrow> bool" where
  "stateOk items e \<longleftrightarrow>
     planItems e = items
     \<and> (\<forall>k<length items. \<exists>c. completedSets e k = Some c \<and> 0 \<le> c \<and> c \<le> max 0 (getTotalSets e k))
     \<and> (\<forall>k. length items \<le> k \<longrightarrow> completedSets e k = None)"

section \<open>Group validation\<close>

record groupInfo =
  firstIndex :: nat
  lastIndex :: nat
  indices :: "nat list"

text \<open>
  \<^verbatim>\<open>groupMap\<close> is a JavaScript \<^verbatim>\<open>Map\<close>; it is iterated in insertion order, so
  it is kept as an association list in that order.
\<close>

type_synonym groupMap = "(jsval \<times> groupInfo) list"

text \<open>The callback of the first pass.\<close>

definition recordItem :: "item \<Rightarrow> nat \<Rightarrow> groupMap \<Rightarrow> groupMap" where
  "recordItem item timelineIndex gm =
     (let groupId = groupKey item
      in if truthy groupId
         then (if map_of gm groupId = None
               then gm @ [(groupId, \<lparr>firstIndex = timelineIndex, lastIndex = timelineIndex,
                                    indices = [timelineIndex]\<rparr>)]
               else map (\<lambda>(k, group).
                          if k = groupId
                          then (k, group\<lparr>lastIndex := timelineIndex,
                                         indices := indices group @ [timelineIndex]\<rparr>)
                          else (k, group)) gm)
         else gm)"

fun firstPass :: "item list \<Rightarrow> nat \<Rightarrow> groupMap \<Rightarrow> groupMap" where
  "firstPass [] timelineIndex gm = gm"
| "firstPass (item # rest) timelineIndex gm =
     firstPass rest (timelineIndex + 1) (recordItem item timelineIndex gm)"

text \<open>
  An entry of \<^verbatim>\<open>interleavedItems\<close>. The source renders it as one line of text,
  \<^verbatim>\<open>Timeline index i: itemName (group: g)\<close>; the three values it interpolates are kept.
\<close>

record gap =
  gapIndex :: nat
  gapItemName :: jsval
  gapGroup :: jsval

definition gapAt :: "item list \<Rightarrow> nat \<Rightarrow> gap" where
  "gapAt items i =
     (let item = itemAt items i;
          itemName = jsOr (jsOr (case item of None \<Rightarrow> JUndefined | Some it \<Rightarrow> name it)
                                (case item of None \<Rightarrow> JUndefined | Some it \<Rightarrow> itemType it))
                          (JStr (''Item '' @ digitsOf i))
      in \<lparr>gapIndex = i, gapItemName = itemName,
          gapGroup = jsOr (case item of None \<Rightarrow> JUndefined | Some it \<Rightarrow> groupNumber it)
                          (JStr ''none'')\<rparr>)"

function gapsFrom :: "item list \<Rightarrow> nat list \<Rightarrow> nat \<Rightarrow> nat \<Rightarrow> gap list \<Rightarrow> gap list" where
  "gapsFrom items idxs i lastIdx gaps =
     (if i \<le> lastIdx
      then gapsFrom items idxs (i + 1) lastIdx
             (if i \<notin> set idxs then gaps @ [gapAt items i] else gaps)
      else gaps)"
  by pat_completeness auto
termination
  by (relation "measure (\<lambda>(items, idxs, i, lastIdx, gaps). Suc lastIdx - i)") auto

declare gapsFrom.simps [simp del]

record issue =
  severity :: string
  groupId :: jsval
  message :: string
  span :: string
  groupItemCount :: nat
  spaceOccupied :: int
  interleavedItems :: "gap list"

definition issueFor :: "item list \<Rightarrow> jsval \<Rightarrow> groupInfo \<Rightarrow> int \<Rightarrow> issue" where
  "issueFor items gid info expectedContiguousLength =
     \<lparr>severity = ''warning'',
      groupId = gid,
      message = ''Group '' @ toString gid @ '' is interleaved with other items. Items must be contiguous.'',
      span = ''Timeline indices '' @ digitsOf (firstIndex info) @ ''-'' @ digitsOf (lastIndex info),
      groupItemCount = length (indices info),
      spaceOccupied = expectedContiguousLength,
      interleavedItems = gapsFrom items (indices info) (firstIndex info) (lastIndex info) []\<rparr>"

fun secondPass :: "item list \<Rightarrow> groupMap \<Rightarrow> issue list \<Rightarrow> issue list" where
  "secondPass items [] issues = issues"
| "secondPass items ((gid, info) # rest) issues =
     (let expectedContiguousLength = int (lastIndex info) - int (firstIndex info) + 1
      in secondPass items rest
           (if int (length (indices info)) \<noteq> expectedContiguousLength
            then issues @ [issueFor items gid info expectedContiguousLength]
            else issues))"

record validation =
  isValid :: bool
  issues :: "issue list"
  resultMessage :: string

definition validateGroupConfiguration :: "item list \<Rightarrow> validation" where
  "validateGroupConfiguration items =
     (if length items = 0 then \<lparr>isValid = True, issues = [], resultMessage = []\<rparr>
      else let found = secondPass items (firstPass items 0 []) []
           in \<lparr>isValid = (length found = 0),
               issues = found,
               resultMessage =
                 (if length found = 0 then ''Group configuration is valid''
                  else ''Found '' @ digitsOf (length found) @ '' group configuration issue(s)'')\<rparr>)"

text \<open>
  The words of the specification about a group of a plan: its members are the indices
  whose group key is the given one, its span runs from the first to the last of them,
  and it is interleaved when it has fewer members than its span has indices.
\<close>

definition membersOf :: "item list \<Rightarrow> jsval \<Rightarrow> nat list" where
  "membersOf items g = filter (\<lambda>i. groupKey (items ! i) = g) [0..<length items]"

definition interleaved :: "item list \<Rightarrow> jsval \<Rightarrow> bool" where
  "interleaved items g =
     (truthy g \<and> membersOf items g \<noteq> [] \<and>
      length (membersOf items g) < last (membersOf items g) - hd (membersOf items g) + 1)"

text \<open>
  Every group occupies a contiguous index range: between two items of one group there
  is no item of another group or of no group.
\<close>

definition contiguousGroups :: "item list \<Rightarrow> bool" where
  "contiguousGroups items =
     (\<forall>k \<in> set [0..<length items]. \<forall>j \<in> set [0..<k]. \<forall>i \<in> set [0..<j].
        truthy (groupKey (items ! i)) \<and> groupKey (items ! k) = groupKey (items ! i)
        \<longrightarrow> groupKey (items ! j) = groupKey (items ! i))"

text \<open>The entry that the first pass holds for a group, from the members of the group.\<close>

definition infoOf :: "item list \<Rightarrow> jsval \<Rightarrow> groupInfo" where
  "infoOf items g =
     \<lparr>firstIndex = hd (membersOf items g), lastIndex = last (membersOf items g),
      indices = membersOf items g\<rparr>"

definition mapOk :: "item list \<Rightarrow> groupMap \<Rightarrow> bool" where
  "mapOk items gm \<longleftrightarrow>
     distinct (map fst gm)
     \<and> (\<forall>(g, info) \<in> set gm. truthy g \<and> membersOf items g \<noteq> [] \<and> info = infoOf items g)
     \<and> (\<forall>g. truthy g \<and> membersOf items g \<noteq> [] \<longrightarrow> g \<in> fst ` set gm)"

definition nonMembersInSpan :: "item list \<Rightarrow> jsval \<Rightarrow> nat list" where
  "nonMembersInSpan items g =
     filter (\<lambda>i. i \<notin> set (membersOf items g))
       [hd (membersOf items g)..<Suc (last (membersOf items g))]"

section \<open>Plans of the test suite\<close>

text \<open>The plan of the rest-duration test: a group whose members are separated by an ungrouped item.\<close>

definition itemA1 :: item where
  "itemA1 = \<lparr>name = JStr ''A1'', itemType = JStr ''exercise'', sets = Num 2, restSec = Num 10,
              groupNumber = JStr ''1''\<rparr>"

definition itemX :: item where
  "itemX = \<lparr>name = JStr ''Ungrouped-X'', itemType = JStr ''exercise'', sets = Num 1, restSec = Num 5,
             groupNumber = JUndefined\<rparr>"

definition itemA2 :: item where
  "itemA2 = \<lparr>name = JStr ''A2'', itemType = JStr ''exercise'', sets = Num 2, restSec = Num 20,
              groupNumber = JStr ''1''\<rparr>"

definition supersetPlan :: "item list" where
  "supersetPlan = [itemA1, itemX, itemA2]"

text \<open>An item of the validation tests: a name, two sets and a group number.\<close>

definition testItem :: "string \<Rightarrow> jsval \<Rightarrow> item" where
  "testItem n g = \<lparr>name = JStr n, itemType = JUndefined, sets = Num 2, restSec = NaN, groupNumber = g\<rparr>"

text \<open>The plan of the test of the formatted message: one item of group 2 between two of group 1.\<close>

definition nestedPlan :: "item list" where
  "nestedPlan = [testItem ''test1'' (JStr ''1''), testItem ''group2_item1'' (JStr ''2''),
                 testItem ''test2'' (JStr ''1'')]"

text \<open>The plan of the test of contiguous groups: three items of group 1, then an ungrouped one.\<close>

definition contiguousPlan :: "item list" where
  "contiguousPlan = [testItem ''test1'' (JStr ''1''), testItem ''test2'' (JStr ''1''),
                     testItem ''test3'' (JStr ''1''), testItem ''echo1'' JUndefined]"

text \<open>The plan of the test of interleaved groups: an item of group 2 inside group 1, another behind it.\<close>

definition interleavedPlan :: "item list" where
  "interleavedPlan = [testItem ''test1'' (JStr ''1''), testItem ''test2'' (JStr ''1''),
                      testItem ''group2_item1'' (JStr ''2''), testItem ''test3'' (JStr ''1''),
                      testItem ''group2_item2'' (JStr ''2'')]"

text \<open>The plan of the test of multiple interleaved groups.\<close>

definition multiplePlan :: "item list" where
  "multiplePlan = [testItem ''test1'' (JStr ''1''), testItem ''group2_item1'' (JStr ''2''),
                   testItem ''test2'' (JStr ''1''), testItem ''group3_item1'' (JStr ''3''),
                   testItem ''test3'' (JStr ''1''), testItem ''group2_item2'' (JStr ''2'')]"

section \<open>The loops as list functions\<close>

lemma groupLoop_filter:
  "groupLoop items g i acc = acc @ filter (\<lambda>j. itemGroupId (itemAt items j) = g) [i..<length items]"
proof (induction items g i acc rule: groupLoop.induct)
  case (1 items groupId i indices)
  show ?case
  proof (cases "i < length items")
    case True
    then have "[i..<length items] = i # [i + 1..<length items]"
      by (simp add: upt_conv_Cons)
    with True 1 show ?thesis by (subst groupLoop.simps) simp
  next
    case False
    then show ?thesis by (subst groupLoop.simps) simp
  qed
qed

lemma findNextFrom_None:
  "findNextFrom e i = None \<longleftrightarrow> (\<forall>j. i \<le> j \<and> j < length (planItems e) \<longrightarrow> \<not> incompleteAt e j)"
proof (induction e i rule: findNextFrom.induct)
  case (1 e i)
  show ?case
  proof (cases "i < length (planItems e)")
    case True
    show ?thesis
    proof (cases "incompleteAt e i")
      case True
      with \<open>i < length (planItems e)\<close> show ?thesis
        by (subst findNextFrom.simps) auto
    next
      case False
      have "(\<forall>j. i \<le> j \<and> j < length (planItems e) \<longrightarrow> \<not> incompleteAt e j)
            \<longleftrightarrow> (\<forall>j. i + 1 \<le> j \<and> j < length (planItems e) \<longrightarrow> \<not> incompleteAt e j)"
        using False by (metis Suc_eq_plus1 Suc_leI le_neq_implies_less add_leD1)
      with True False 1 show ?thesis by (subst findNextFrom.simps) simp
    qed
  next
    case False
    then show ?thesis by (subst findNextFrom.simps) auto
  qed
qed

lemma findNextFrom_Some:
  "findNextFrom e i = Some k \<longleftrightarrow>
     (i \<le> k \<and> k < length (planItems e) \<and> incompleteAt e k \<and> (\<forall>j. i \<le> j \<and> j < k \<longrightarrow> \<not> incompleteAt e j))"
proof (induction e i rule: findNextFrom.induct)
  case (1 e i)
  show ?case
  proof (cases "i < length (planItems e)")
    case True
    note inr = True
    show ?thesis
    proof (cases "incompleteAt e i")
      case True
      have "findNextFrom e i = Some i" using inr True by (subst findNextFrom.simps) simp
      moreover have "(i \<le> k \<and> k < length (planItems e) \<and> incompleteAt e k \<and> (\<forall>j. i \<le> j \<and> j < k \<longrightarrow> \<not> incompleteAt e j)) \<longleftrightarrow> k = i"
        using inr True by (metis le_neq_implies_less order_refl less_irrefl le_less_trans)
      ultimately show ?thesis by auto
    next
      case False
      have "(i \<le> k \<and> k < length (planItems e) \<and> incompleteAt e k \<and> (\<forall>j. i \<le> j \<and> j < k \<longrightarrow> \<not> incompleteAt e j))
        \<longleftrightarrow> (i + 1 \<le> k \<and> k < length (planItems e) \<and> incompleteAt e k \<and> (\<forall>j. i + 1 \<le> j \<and> j < k \<longrightarrow> \<not> incompleteAt e j))"
        using False by (metis Suc_eq_plus1 Suc_leI le_neq_implies_less add_leD1)
      with inr False 1 show ?thesis by (subst findNextFrom.simps) simp
    qed
  next
    case False
    then show ?thesis by (subst findNextFrom.simps) auto
  qed
qed

lemma init_completedSets:
  "completedSets (initializeCompletionState e) =
     (\<lambda>k. if k < length (planItems e) then Some 0 else completedSets e k)"
proof -
  have "fold (\<lambda>index m. m(index \<mapsto> (0::int))) [0..<n] m = (\<lambda>k. if k < n then Some 0 else m k)" for n and m :: "nat \<rightharpoonup> int"
    by (induction n) (auto simp: fun_eq_iff)
  then show ?thesis by (simp add: initializeCompletionState_def)
qed

lemma getGroupExercises_filter:
  "getGroupExercises e g =
     (if g = JNull \<or> g = JUndefined \<or> trim (toString g) = [] then []
      else filter (\<lambda>j. itemGroupId (itemAt (planItems e) j) = trim (toString g))
             [0..<length (planItems e)])"
  by (simp add: getGroupExercises_def Let_def groupLoop_filter)




lemma groupKey_itemGroupId:
  "truthy (groupKey u) \<Longrightarrow> groupKey u = JStr (itemGroupId (Some u))"
  by (simp add: groupKey_def jsAnd_def itemGroupId_def split: if_splits)


section \<open>Group membership\<close>



section \<open>The next action\<close>

lemma incompleteAt_iff:
  "i < length (planItems e) \<Longrightarrow> incompleteAt e i \<longleftrightarrow> getCompletedSets e i < getTotalSets e i"
  by (simp add: incompleteAt_def getCompletedSets_def getTotalSets_def itemAt_def)

lemma findNext_Some_iff:
  "findNextIncompleteExercise e = Some i \<longleftrightarrow>
     (i < length (planItems e) \<and> getCompletedSets e i < getTotalSets e i \<and>
      (\<forall>j<i. \<not> getCompletedSets e j < getTotalSets e j))"
  unfolding findNextIncompleteExercise_def findNextFrom_Some
  by (auto simp: incompleteAt_iff)

lemma findNext_None_iff:
  "findNextIncompleteExercise e = None \<longleftrightarrow>
     (\<forall>j<length (planItems e). \<not> getCompletedSets e j < getTotalSets e j)"
  unfolding findNextIncompleteExercise_def findNextFrom_None
  by (auto simp: incompleteAt_iff)

lemma isGrouped_iff:
  "isGrouped e i \<longleftrightarrow> itemGroupId (itemAt (planItems e) i) \<noteq> []"
  by (simp add: isGrouped_def itemGroupId_def groupKey_def jsAnd_def split: option.splits)

lemma isGrouped_groupNumber:
  assumes "isGrouped e i"
  shows "i < length (planItems e)"
    and "groupNumber (planItems e ! i) \<noteq> JNull"
    and "groupNumber (planItems e ! i) \<noteq> JUndefined"
    and "trim (toString (groupNumber (planItems e ! i))) = itemGroupId (itemAt (planItems e) i)"
    and "itemGroupId (itemAt (planItems e) i) \<noteq> []"
  using assms
  by (auto simp: isGrouped_def itemGroupId_def groupKey_def jsAnd_def itemAt_def
           split: option.splits if_splits)

text \<open>
  Claim C1. In every executor state whose lowest-index incomplete item \<open>i\<close> is grouped,
  \<^verbatim>\<open>getNextAction\<close> returns \<^verbatim>\<open>group-superset-start\<close> for the trimmed group identifier
  of that item, with \<open>i\<close> as the index to start with. The indices of its members list are
  exactly the indices of the plan whose group identifier is that of item \<open>i\<close>, in increasing
  order, whether finished, not yet reached, or separated by items of other groups or of no
  group; each member carries its total, completed and remaining sets.
\<close>

theorem getNextAction_group_superset_start:
  assumes "i < length (planItems e)"
    and "getCompletedSets e i < getTotalSets e i"
    and "\<forall>j<i. \<not> getCompletedSets e j < getTotalSets e j"
    and "isGrouped e i"
  shows "\<exists>members.
           getNextAction e = GroupSupersetStart (itemGroupId (itemAt (planItems e) i)) members i
         \<and> map memberIndex members
             = filter (\<lambda>j. itemGroupId (itemAt (planItems e) j) = itemGroupId (itemAt (planItems e) i))
                 [0..<length (planItems e)]
         \<and> i \<in> set (map memberIndex members)
         \<and> (\<forall>m \<in> set members.
               memberTotalSets m = getTotalSets e (memberIndex m)
             \<and> memberCompletedSets m = getCompletedSets e (memberIndex m)
             \<and> memberRemainingSets m = max 0 (memberTotalSets m - memberCompletedSets m))"
proof -
  let ?gid = "itemGroupId (itemAt (planItems e) i)"
  let ?idxs = "filter (\<lambda>j. itemGroupId (itemAt (planItems e) j) = ?gid) [0..<length (planItems e)]"
  have nxt: "findNextIncompleteExercise e = Some i"
    using assms(1-3) by (simp add: findNext_Some_iff)
  note g = isGrouped_groupNumber [OF assms(4)]
  have grp: "getGroupExercises e (groupNumber (planItems e ! i)) = ?idxs"
    using g by (simp add: getGroupExercises_filter)
  have act: "getNextAction e = GroupSupersetStart ?gid (map (groupInfoOf e) ?idxs) i"
    using nxt assms(4) grp g(4) by (simp add: getNextAction_def Let_def)
  have idx: "map memberIndex (map (groupInfoOf e) ?idxs) = ?idxs"
    by (simp add: comp_def groupInfoOf_def)
  have mem: "i \<in> set ?idxs"
    using assms(1) by simp
  have info: "\<forall>m \<in> set (map (groupInfoOf e) ?idxs).
               memberTotalSets m = getTotalSets e (memberIndex m)
             \<and> memberCompletedSets m = getCompletedSets e (memberIndex m)
             \<and> memberRemainingSets m = max 0 (memberTotalSets m - memberCompletedSets m)"
    by (auto simp: groupInfoOf_def getRemainingSets_def Let_def)
  show ?thesis
    using act idx mem info by (intro exI [of _ "map (groupInfoOf e) ?idxs"] conjI) simp_all
qed


theorem getNextAction_group_superset_start_witness:
  "0 < length (planItems (newExecutor supersetPlan))
   \<and> isGrouped (newExecutor supersetPlan) 0
   \<and> (\<exists>members. getNextAction (newExecutor supersetPlan) = GroupSupersetStart ''1'' members 0
          \<and> map memberIndex members = [0, 2])"
proof -
  let ?e = "newExecutor supersetPlan"
  have h1: "0 < length (planItems ?e)" by code_simp
  have h2: "getCompletedSets ?e 0 < getTotalSets ?e 0" by code_simp
  have h3: "\<forall>j<0. \<not> getCompletedSets ?e j < getTotalSets ?e j" by simp
  have h4: "isGrouped ?e 0" by code_simp
  have gid: "itemGroupId (itemAt (planItems ?e) 0) = ''1''" by code_simp
  have idxs: "filter (\<lambda>j. itemGroupId (itemAt (planItems ?e) j) = ''1'') [0..<length (planItems ?e)] = [0, 2]"
    by code_simp
  from getNextAction_group_superset_start [OF h1 h2 h3 h4]
  obtain members where "getNextAction ?e = GroupSupersetStart ''1'' members 0"
    and "map memberIndex members = [0, 2]"
    unfolding gid idxs by auto
  then have "\<exists>members. getNextAction ?e = GroupSupersetStart ''1'' members 0
          \<and> map memberIndex members = [0, 2]"
    by auto
  with h1 h4 show ?thesis by (intro conjI)
qed

section \<open>The end of a round\<close>

lemma anyRemaining_iff:
  "anyRemaining e xs \<longleftrightarrow> (\<exists>idx \<in> set xs. 0 < getRemainingSets e idx)"
  by (induction xs) auto

lemma filter_upt_first:
  assumes "filter P [0..<n] = k # rest"
  shows "k < n \<and> P k \<and> (\<forall>j<k. \<not> P j)"
proof -
  have mem: "k \<in> set (filter P [0..<n])" using assms by simp
  have srt: "sorted_wrt (<) (k # rest)"
    using sorted_wrt_filter [of "(<)" "[0..<n]" P] assms by simp
  have "\<not> P j" if "j < k" for j
  proof
    assume "P j"
    with that mem have "j \<in> set (k # rest)" using assms [symmetric] by auto
    with srt have "k \<le> j" by auto
    with that show False by simp
  qed
  with mem show ?thesis by auto
qed

text \<open>
  Claim C4. \<^verbatim>\<open>completeGroupRound\<close> returns \<^verbatim>\<open>group-complete\<close> exactly when no
  member of the group has sets remaining. Otherwise it returns \<^verbatim>\<open>rest-then-continue\<close>,
  resuming at the first index of the plan that belongs to the group. For a \<^verbatim>\<open>null\<close>,
  \<^verbatim>\<open>undefined\<close>, blank or unknown group the member list is empty and the result is
  \<^verbatim>\<open>group-complete\<close>.
\<close>

theorem completeGroupRound_cases:
  "(completeGroupRound e l g = GroupComplete
      \<longleftrightarrow> (\<forall>idx \<in> set (getGroupExercises e g). \<not> 0 < getRemainingSets e idx))
   \<and> (completeGroupRound e l g \<noteq> GroupComplete \<longrightarrow>
        (\<exists>k. completeGroupRound e l g
                = RestThenContinue (Some k) (restSecondsOf (itemAt (planItems e) l)) l
             \<and> k < length (planItems e)
             \<and> itemGroupId (itemAt (planItems e) k) = trim (toString g)
             \<and> (\<forall>j<k. itemGroupId (itemAt (planItems e) j) \<noteq> trim (toString g))))
   \<and> (g = JNull \<or> g = JUndefined \<or> trim (toString g) = []
        \<or> (\<forall>j<length (planItems e). itemGroupId (itemAt (planItems e) j) \<noteq> trim (toString g))
       \<longrightarrow> getGroupExercises e g = [] \<and> completeGroupRound e l g = GroupComplete)"
proof (intro conjI impI)
  show c1: "completeGroupRound e l g = GroupComplete
      \<longleftrightarrow> (\<forall>idx \<in> set (getGroupExercises e g). \<not> 0 < getRemainingSets e idx)"
    by (simp add: completeGroupRound_def Let_def anyRemaining_iff)
  show "\<exists>k. completeGroupRound e l g
                = RestThenContinue (Some k) (restSecondsOf (itemAt (planItems e) l)) l
             \<and> k < length (planItems e)
             \<and> itemGroupId (itemAt (planItems e) k) = trim (toString g)
             \<and> (\<forall>j<k. itemGroupId (itemAt (planItems e) j) \<noteq> trim (toString g))"
    if ne: "completeGroupRound e l g \<noteq> GroupComplete"
  proof -
    from ne c1 obtain idx where idx: "idx \<in> set (getGroupExercises e g)" by blast
    then obtain k rest where kr: "getGroupExercises e g = k # rest"
      by (cases "getGroupExercises e g") auto
    have any: "anyRemaining e (getGroupExercises e g)"
      using ne by (simp add: completeGroupRound_def Let_def split: if_splits)
    have res: "completeGroupRound e l g
                = RestThenContinue (Some k) (restSecondsOf (itemAt (planItems e) l)) l"
      using any kr by (simp add: completeGroupRound_def Let_def)
    have "filter (\<lambda>j. itemGroupId (itemAt (planItems e) j) = trim (toString g))
            [0..<length (planItems e)] = k # rest"
      using kr by (simp add: getGroupExercises_filter split: if_splits)
    from filter_upt_first [OF this] res show ?thesis by blast
  qed
  show "getGroupExercises e g = []"
    if "g = JNull \<or> g = JUndefined \<or> trim (toString g) = []
        \<or> (\<forall>j<length (planItems e). itemGroupId (itemAt (planItems e) j) \<noteq> trim (toString g))"
    using that by (auto simp: getGroupExercises_filter filter_empty_conv)
  then show "completeGroupRound e l g = GroupComplete"
    if "g = JNull \<or> g = JUndefined \<or> trim (toString g) = []
        \<or> (\<forall>j<length (planItems e). itemGroupId (itemAt (planItems e) j) \<noteq> trim (toString g))"
    using that by (simp add: completeGroupRound_def Let_def)
qed

theorem completeGroupRound_cases_witness:
  "completeGroupRound (completeSet (completeSet (newExecutor supersetPlan) 0) 2) 2 (JStr ''1'')
     \<noteq> GroupComplete
   \<and> (\<exists>k. completeGroupRound (completeSet (completeSet (newExecutor supersetPlan) 0) 2) 2 (JStr ''1'')
            = RestThenContinue (Some k) 20 2 \<and> k < 3)
   \<and> completeGroupRound (newExecutor supersetPlan) 2 (JStr '' '') = GroupComplete"
proof -
  let ?e = "completeSet (completeSet (newExecutor supersetPlan) 0) 2"
  have ne: "completeGroupRound ?e 2 (JStr ''1'') \<noteq> GroupComplete" by code_simp
  have rs: "restSecondsOf (itemAt (planItems ?e) 2) = 20" by code_simp
  have len: "length (planItems ?e) = 3" by code_simp
  have blank: "trim (toString (JStr '' '')) = []" by code_simp
  from completeGroupRound_cases [of ?e 2 "JStr ''1''"] ne
  have "\<exists>k. completeGroupRound ?e 2 (JStr ''1'') = RestThenContinue (Some k) 20 2 \<and> k < 3"
    unfolding rs len by auto
  moreover from completeGroupRound_cases [of "newExecutor supersetPlan" 2 "JStr '' ''"] blank
  have "completeGroupRound (newExecutor supersetPlan) 2 (JStr '' '') = GroupComplete"
    by auto
  ultimately show ?thesis using ne by (intro conjI)
qed

lemma restSecondsOf_cases:
  "restSecondsOf (itemAt items l) =
     (if l < length items then (case restSec (items ! l) of NaN \<Rightarrow> 60 | Num n \<Rightarrow> if n = 0 then 60 else n)
      else 60)"
  by (simp add: restSecondsOf_def itemAt_def split: jsnum.splits)

text \<open>The run of the rest-duration test: a round that ends at A2 rests 20 seconds, and the group
  is complete after the second round.\<close>

lemma superset_rest_duration_test:
  "getNextAction (newExecutor supersetPlan) =
     GroupSupersetStart ''1''
       [\<lparr>memberIndex = 0, memberName = JStr ''A1'', memberTotalSets = 2,
           memberCompletedSets = 0, memberRemainingSets = 2\<rparr>,
        \<lparr>memberIndex = 2, memberName = JStr ''A2'', memberTotalSets = 2,
           memberCompletedSets = 0, memberRemainingSets = 2\<rparr>] 0"
  "completeGroupRound (completeSet (completeSet (newExecutor supersetPlan) 0) 2) 2 (JStr ''1'')
     = RestThenContinue (Some 0) 20 2"
  "completeGroupRound
     (completeSet (completeSet (completeSet (completeSet (newExecutor supersetPlan) 0) 2) 0) 2)
     2 (JStr ''1'') = GroupComplete"
  by code_simp+

text \<open>The rest of a round depends on the item completed last and on nothing else.\<close>

lemma completeGroupRound_rest:
  "completeGroupRound e l g = RestThenContinue r s l' \<Longrightarrow>
     s = restSecondsOf (itemAt (planItems e) l) \<and> l' = l"
  by (auto simp: completeGroupRound_def Let_def split: if_splits)

text \<open>
  Claim C2. The claim has the rest of a round equal to the \<^verbatim>\<open>restSec\<close> of the item
  completed last, the value 0 included. In the plan of the rest-duration test with the
  \<^verbatim>\<open>restSec\<close> of A1 set to 0, a round that ends at A1 rests 60 seconds:
  \<^verbatim>\<open>Number(0) || 60\<close> is 60.
\<close>

theorem completeGroupRound_rest_zero:
  "restSec (itemA1\<lparr>restSec := Num 0\<rparr>) = Num 0
   \<and> completeGroupRound (newExecutor [itemA1\<lparr>restSec := Num 0\<rparr>, itemX, itemA2]) 0 (JStr ''1'')
       = RestThenContinue (Some 0) 60 0"
  by code_simp

section \<open>What the methods return and leave behind\<close>

text \<open>
  Run as a state transformer, each query returns the value of the function of the same
  name above and hands back the executor it was given; \<^verbatim>\<open>completeSet\<close> and
  \<^verbatim>\<open>reset\<close> leave the executor that \<open>completeSet\<close> and \<open>reset\<close> compute.
\<close>

lemma initLoop_run_eq:
  "initLoop_run xs e = ((), e\<lparr>completedSets := fold (\<lambda>index m. m(index \<mapsto> 0)) xs (completedSets e)\<rparr>)"
  by (induction xs arbitrary: e) (simp_all add: mapSet_def)

lemma initializeCompletionState_run_eq:
  "initializeCompletionState_run e = ((), initializeCompletionState e)"
  by (simp add: initializeCompletionState_run_def planLength_def initLoop_run_eq
        initializeCompletionState_def)

lemma reset_run_eq: "reset_run e = ((), reset e)"
  by (simp add: reset_run_def reset_def initializeCompletionState_run_eq)

lemma findNextFrom_run_eq: "findNextFrom_run i e = (findNextFrom e i, e)"
proof (induction e i rule: findNextFrom.induct)
  case (1 e i)
  show ?case
  proof (cases "i < length (planItems e)")
    case False
    then show ?thesis
      by (subst findNextFrom_run.simps, subst findNextFrom.simps) (simp add: planLength_def)
  next
    case True
    show ?thesis
    proof (cases "incompleteAt e i")
      case True
      with \<open>i < length (planItems e)\<close> show ?thesis
        by (subst findNextFrom_run.simps, subst findNextFrom.simps)
           (simp add: planLength_def planNth_def mapGet_def incompleteAt_def Let_def)
    next
      case False
      with \<open>i < length (planItems e)\<close> 1 show ?thesis
        by (subst findNextFrom_run.simps, subst findNextFrom.simps)
           (simp add: planLength_def planNth_def mapGet_def incompleteAt_def Let_def)
    qed
  qed
qed

lemma findNextIncompleteExercise_run_eq:
  "findNextIncompleteExercise_run e = (findNextIncompleteExercise e, e)"
  by (simp add: findNextIncompleteExercise_run_def findNextIncompleteExercise_def findNextFrom_run_eq)

lemma groupLoop_run_eq:
  "groupLoop_run g i acc e = (groupLoop (planItems e) g i acc, e)"
proof (induction "planItems e" g i acc arbitrary: e rule: groupLoop.induct)
  case (1 groupId i indices)
  show ?case
  proof (cases "i < length (planItems e)")
    case False
    then show ?thesis
      by (subst groupLoop_run.simps, subst groupLoop.simps) (simp add: planLength_def)
  next
    case True
    with 1 show ?thesis
      by (subst groupLoop_run.simps, subst groupLoop.simps) (simp add: planLength_def planGet_def)
  qed
qed

lemma getGroupExercises_run_eq:
  "getGroupExercises_run g e = (getGroupExercises e g, e)"
  by (simp add: getGroupExercises_run_def getGroupExercises_def Let_def groupLoop_run_eq)

lemma isGrouped_run_eq: "isGrouped_run i e = (isGrouped e i, e)"
  by (simp add: isGrouped_run_def isGrouped_def planGet_def split: option.splits)

lemma getTotalSets_run_eq: "getTotalSets_run i e = (getTotalSets e i, e)"
  by (simp add: getTotalSets_run_def getTotalSets_def planGet_def split: option.splits)

lemma getCompletedSets_run_eq: "getCompletedSets_run i e = (getCompletedSets e i, e)"
  by (simp add: getCompletedSets_run_def getCompletedSets_def mapGet_def)

lemma getRemainingSets_run_eq: "getRemainingSets_run i e = (getRemainingSets e i, e)"
  by (simp add: getRemainingSets_run_def getRemainingSets_def getTotalSets_run_eq
        getCompletedSets_run_eq Let_def)

lemma completeSet_run_eq: "completeSet_run i e = ((), completeSet e i)"
  by (simp add: completeSet_run_def completeSet_def mapGet_def mapSet_def getTotalSets_run_eq Let_def)

lemma groupInfo_run_eq: "groupInfo_run xs e = (map (groupInfoOf e) xs, e)"
  by (induction xs)
     (simp_all add: planNth_def getTotalSets_run_eq getCompletedSets_run_eq getRemainingSets_run_eq
        groupInfoOf_def)

lemma getNextAction_run_eq: "getNextAction_run e = (getNextAction e, e)"
  by (simp add: getNextAction_run_def getNextAction_def findNextIncompleteExercise_run_eq
        planNth_def isGrouped_run_eq getCompletedSets_run_eq getGroupExercises_run_eq
        groupInfo_run_eq Let_def split: option.splits)

lemma anyRemaining_run_eq: "anyRemaining_run xs e = (anyRemaining e xs, e)"
  by (induction xs) (simp_all add: getRemainingSets_run_eq)

lemma anyRemainingAll_run_eq:
  "anyRemainingAll_run xs found e = (found \<or> anyRemaining e xs, e)"
  by (induction xs arbitrary: found) (auto simp: getRemainingSets_run_eq)

lemma nextInGroup_run_eq: "nextInGroup_run xs e = (nextInGroup e xs, e)"
  by (induction xs) (simp_all add: getRemainingSets_run_eq getCompletedSets_run_eq planNth_def)

lemma getNextGroupAction_run_eq:
  "getNextGroupAction_run g e = (getNextGroupAction e g, e)"
  by (simp add: getNextGroupAction_run_def getNextGroupAction_def getGroupExercises_run_eq
        anyRemainingAll_run_eq nextInGroup_run_eq Let_def)

lemma completeGroupRound_run_eq:
  "completeGroupRound_run l g e = (completeGroupRound e l g, e)"
  by (simp add: completeGroupRound_run_def completeGroupRound_def getGroupExercises_run_eq
        anyRemaining_run_eq planGet_def Let_def)

lemma invoke_eq [simp]:
  "invoke OpGetNextAction e = (Act (getNextAction e), e)"
  "invoke (OpGetGroupExercises g) e = (Indices (getGroupExercises e g), e)"
  "invoke (OpIsGrouped i) e = (Flag (isGrouped e i), e)"
  "invoke (OpGetNextGroupAction g) e = (Act (getNextGroupAction e g), e)"
  "invoke (OpCompleteGroupRound i g) e = (Act (completeGroupRound e i g), e)"
  "invoke (OpCompleteSet i) e = (NoValue, completeSet e i)"
  "invoke OpReset e = (NoValue, reset e)"
  by (simp_all add: getNextAction_run_eq getGroupExercises_run_eq isGrouped_run_eq
        getNextGroupAction_run_eq completeGroupRound_run_eq completeSet_run_eq reset_run_eq)

declare invoke.simps [simp del]

section \<open>Reachable states\<close>

lemma getTotalSets_update [simp]:
  "getTotalSets (e\<lparr>completedSets := m\<rparr>) k = getTotalSets e k"
  by (simp add: getTotalSets_def)

lemma getTotalSets_out_of_range:
  "length (planItems e) \<le> i \<Longrightarrow> getTotalSets e i = 0"
  by (simp add: getTotalSets_def itemAt_def)

lemma init_planItems [simp]:
  "planItems (initializeCompletionState e) = planItems e"
  by (simp add: initializeCompletionState_def)

lemma getTotalSets_init [simp]:
  "getTotalSets (initializeCompletionState e) k = getTotalSets e k"
  by (simp add: getTotalSets_def)

lemma planItems_invoke:
  "planItems (snd (invoke op e)) = planItems e"
  by (cases op) (simp_all add: completeSet_def Let_def reset_def initializeCompletionState_def)

lemma getTotalSets_invoke:
  "getTotalSets (snd (invoke op e)) k = getTotalSets e k"
  by (simp add: getTotalSets_def planItems_invoke)

lemma completeSet_increments:
  "getCompletedSets e i < getTotalSets e i \<Longrightarrow>
     completedSets (completeSet e i) = (completedSets e)(i \<mapsto> getCompletedSets e i + 1)"
  by (simp add: completeSet_def getCompletedSets_def Let_def)

lemma completeSet_noop:
  "\<not> getCompletedSets e i < getTotalSets e i \<Longrightarrow> completeSet e i = e"
  by (simp add: completeSet_def getCompletedSets_def Let_def)

lemma getOr0_eq: "getOr0 x = (case x of None \<Rightarrow> 0 | Some v \<Rightarrow> v)"
  by (cases x) simp_all

lemma completeSet_other:
  "k \<noteq> i \<Longrightarrow> completedSets (completeSet e i) k = completedSets e k"
  by (simp add: completeSet_def Let_def)

lemma completeSet_mono:
  "getCompletedSets e k \<le> getCompletedSets (completeSet e i) k"
  by (cases "getCompletedSets e i < getTotalSets e i")
     (auto simp: completeSet_increments completeSet_noop getCompletedSets_def getOr0_eq)

lemma stateOk_new: "stateOk items (newExecutor items)"
  by (simp add: stateOk_def newExecutor_def init_completedSets)

lemma stateOk_reset: "stateOk items e \<Longrightarrow> stateOk items (reset e)"
  by (simp add: stateOk_def reset_def init_completedSets)

lemma stateOk_completeSet:
  assumes "stateOk items e"
  shows "stateOk items (completeSet e i)"
proof (cases "getCompletedSets e i < getTotalSets e i")
  case False
  with assms show ?thesis by (simp add: completeSet_noop)
next
  case True
  have pl: "planItems e = items" using assms by (simp add: stateOk_def)
  have inr: "i < length items"
  proof (rule ccontr)
    assume "\<not> i < length items"
    then have "length (planItems e) \<le> i" using pl by simp
    moreover from this assms pl have "completedSets e i = None" by (simp add: stateOk_def)
    ultimately show False using True
      by (simp add: getTotalSets_out_of_range getCompletedSets_def)
  qed
  have e': "completeSet e i = e\<lparr>completedSets := (completedSets e)(i \<mapsto> getCompletedSets e i + 1)\<rparr>"
    using True by (simp add: completeSet_def getCompletedSets_def Let_def)
  from assms inr obtain c where c: "completedSets e i = Some c" "0 \<le> c"
    by (auto simp: stateOk_def)
  then have cur: "getCompletedSets e i = c" by (simp add: getCompletedSets_def)
  show ?thesis
    unfolding e' using assms True cur c by (auto simp: stateOk_def)
qed

lemma reachable_stateOk: "reachable items e \<Longrightarrow> stateOk items e"
proof (induction rule: reachable.induct)
  case constructed
  show ?case by (rule stateOk_new)
next
  case (invoked e op)
  then show ?case by (cases op) (simp_all add: stateOk_completeSet stateOk_reset)
qed

lemma reachable_bounds:
  assumes "reachable items e"
  shows "0 \<le> getCompletedSets e i \<and> getCompletedSets e i \<le> max 0 (getTotalSets e i)"
proof (cases "i < length items")
  case True
  with reachable_stateOk [OF assms] show ?thesis
    by (auto simp: stateOk_def getCompletedSets_def)
next
  case False
  with reachable_stateOk [OF assms] show ?thesis
    by (simp add: stateOk_def getCompletedSets_def)
qed

lemma getNextAction_Complete_iff:
  "getNextAction e = Complete \<longleftrightarrow>
     (\<forall>i<length (planItems e). \<not> getCompletedSets e i < getTotalSets e i)"
  by (simp add: getNextAction_def Let_def findNext_None_iff [symmetric] split: option.splits)

lemma getNextAction_Complete_positive:
  assumes "reachable items e" and "\<forall>i<length items. 0 < getTotalSets e i"
  shows "getNextAction e = Complete \<longleftrightarrow>
           (\<forall>i<length items. getCompletedSets e i = getTotalSets e i)"
proof -
  have pl: "planItems e = items" using reachable_stateOk [OF assms(1)] by (simp add: stateOk_def)
  have "\<not> getCompletedSets e i < getTotalSets e i \<longleftrightarrow> getCompletedSets e i = getTotalSets e i"
    if "i < length items" for i
    using reachable_bounds [OF assms(1), of i] assms(2) that by auto
  then show ?thesis unfolding getNextAction_Complete_iff pl by auto
qed

text \<open>
  Claim C3. The claim has \<^verbatim>\<open>getNextAction\<close> return \<^verbatim>\<open>complete\<close> only when every
  item has as many completed sets as total sets. For a plan of one item with
  \<^verbatim>\<open>sets: -1\<close> the fresh executor answers \<^verbatim>\<open>complete\<close> with 0 sets completed:
  \<^verbatim>\<open>Number(-1) || 1\<close> is -1, and 0 is not below it.
\<close>

theorem getNextAction_complete_negative_sets:
  "getNextAction (newExecutor [itemX\<lparr>sets := Num (- 1)\<rparr>]) = Complete
   \<and> getCompletedSets (newExecutor [itemX\<lparr>sets := Num (- 1)\<rparr>]) 0 = 0
   \<and> getTotalSets (newExecutor [itemX\<lparr>sets := Num (- 1)\<rparr>]) 0 = - 1"
  by code_simp

text \<open>
  Claim C10. In every reachable state, for an index outside the plan (where
  \<^verbatim>\<open>planItems[index]\<close> is absent) the total sets are 0 and \<^verbatim>\<open>completeSet(index)\<close>
  leaves the executor as it was: the guard does not fire and the map gets no entry.
\<close>

theorem completeSet_out_of_range:
  assumes "reachable items e" and "length items \<le> i"
  shows "getTotalSets e i = 0 \<and> completeSet e i = e \<and> snd (invoke (OpCompleteSet i) e) = e"
proof -
  have ok: "stateOk items e" by (rule reachable_stateOk [OF assms(1)])
  then have pl: "planItems e = items" by (simp add: stateOk_def)
  have t: "getTotalSets e i = 0" using assms(2) pl by (simp add: getTotalSets_out_of_range)
  have "completedSets e i = None" using ok assms(2) by (simp add: stateOk_def)
  then have "getCompletedSets e i = 0" by (simp add: getCompletedSets_def)
  with t have "completeSet e i = e" by (simp add: completeSet_noop)
  with t show ?thesis by simp
qed

theorem completeSet_out_of_range_witness:
  "reachable supersetPlan (completeSet (newExecutor supersetPlan) 0)
   \<and> length supersetPlan \<le> 7
   \<and> completeSet (completeSet (newExecutor supersetPlan) 0) 7 = completeSet (newExecutor supersetPlan) 0"
proof -
  have r: "reachable supersetPlan (completeSet (newExecutor supersetPlan) 0)"
    using reachable.invoked [OF reachable.constructed, of supersetPlan "OpCompleteSet 0"] by simp
  have l: "length supersetPlan \<le> 7" by code_simp
  from completeSet_out_of_range [OF r l] r l show ?thesis by simp
qed

text \<open>
  Claim C9. In every reachable state the methods \<^verbatim>\<open>getNextAction\<close>,
  \<^verbatim>\<open>getGroupExercises\<close>, \<^verbatim>\<open>isGrouped\<close>, \<^verbatim>\<open>getNextGroupAction\<close> and
  \<^verbatim>\<open>completeGroupRound\<close>, run statement by statement, leave the executor, and with it
  \<^verbatim>\<open>completedSets\<close>, as it was; a call that changes \<^verbatim>\<open>completedSets\<close> is
  \<^verbatim>\<open>completeSet\<close> or \<^verbatim>\<open>reset\<close>; \<^verbatim>\<open>completeSet(i)\<close> touches no entry but
  that of \<open>i\<close>; and after \<^verbatim>\<open>reset\<close> the map has the entry 0 at every index of the
  plan and no other entry.
\<close>

theorem completedSets_frame:
  assumes "reachable items e"
  shows "snd (getNextAction_run e) = e
       \<and> snd (getGroupExercises_run g e) = e
       \<and> snd (isGrouped_run i e) = e
       \<and> snd (getNextGroupAction_run g e) = e
       \<and> snd (completeGroupRound_run i g e) = e
       \<and> (completedSets (snd (invoke op e)) \<noteq> completedSets e
            \<longrightarrow> (\<exists>k. op = OpCompleteSet k) \<or> op = OpReset)
       \<and> (\<forall>k. k \<noteq> i \<longrightarrow> completedSets (snd (completeSet_run i e)) k = completedSets e k)
       \<and> completedSets (snd (reset_run e)) = (\<lambda>k. if k < length items then Some 0 else None)"
proof -
  have ok: "stateOk items e" by (rule reachable_stateOk [OF assms])
  have "completedSets (snd (invoke op e)) \<noteq> completedSets e
            \<longrightarrow> (\<exists>k. op = OpCompleteSet k) \<or> op = OpReset"
    by (cases op) simp_all
  moreover have "completedSets (snd (reset_run e)) = (\<lambda>k. if k < length items then Some 0 else None)"
    using ok by (auto simp: reset_run_eq reset_def init_completedSets stateOk_def fun_eq_iff)
  ultimately show ?thesis
    by (simp add: getNextAction_run_eq getGroupExercises_run_eq isGrouped_run_eq
          getNextGroupAction_run_eq completeGroupRound_run_eq completeSet_run_eq completeSet_other)
qed

theorem completedSets_frame_witness:
  "reachable supersetPlan (completeSet (newExecutor supersetPlan) 0)
   \<and> completedSets (snd (getNextAction_run (completeSet (newExecutor supersetPlan) 0))) 0 = Some 1
   \<and> completedSets (snd (completeGroupRound_run 2 (JStr ''1'') (completeSet (newExecutor supersetPlan) 0))) 0
       = Some 1
   \<and> completedSets (snd (completeSet_run 2 (completeSet (newExecutor supersetPlan) 0))) 0 = Some 1
   \<and> completedSets (snd (reset_run (completeSet (newExecutor supersetPlan) 0))) 0 = Some 0"
proof -
  let ?e = "completeSet (newExecutor supersetPlan) 0"
  have r: "reachable supersetPlan ?e"
    using reachable.invoked [OF reachable.constructed, of supersetPlan "OpCompleteSet 0"] by simp
  have v: "completedSets ?e 0 = Some 1" by code_simp
  have l: "(0::nat) < length supersetPlan" by code_simp
  have n: "(0::nat) \<noteq> 2" by simp
  from completedSets_frame [OF r, of "JStr ''1''" 2 "OpCompleteSet 2"] v l n r show ?thesis
    by simp
qed

text \<open>
  Claim C5. The claim keeps \<^verbatim>\<open>completedSets[i]\<close> within 0 and the total sets of item
  \<open>i\<close>, and has \<^verbatim>\<open>completeSet\<close> count up to that total. For a plan of one item with
  \<^verbatim>\<open>sets: -1\<close> the total the executor works with is -1: in the fresh state, which is
  reachable, the 0 completed sets exceed it, and \<^verbatim>\<open>completeSet(0)\<close> never counts the
  one set that the coerced total would ask for.
\<close>

theorem completedSets_negative_total:
  "reachable [itemX\<lparr>sets := Num (- 1)\<rparr>] (newExecutor [itemX\<lparr>sets := Num (- 1)\<rparr>])
   \<and> getTotalSets (newExecutor [itemX\<lparr>sets := Num (- 1)\<rparr>]) 0 = - 1
   \<and> getCompletedSets (newExecutor [itemX\<lparr>sets := Num (- 1)\<rparr>]) 0 = 0
   \<and> getCompletedSets (completeSet (newExecutor [itemX\<lparr>sets := Num (- 1)\<rparr>]) 0) 0 = 0"
proof -
  have "reachable [itemX\<lparr>sets := Num (- 1)\<rparr>] (newExecutor [itemX\<lparr>sets := Num (- 1)\<rparr>])"
    by (rule reachable.constructed)
  moreover have "getTotalSets (newExecutor [itemX\<lparr>sets := Num (- 1)\<rparr>]) 0 = - 1" by code_simp
  moreover have "getCompletedSets (newExecutor [itemX\<lparr>sets := Num (- 1)\<rparr>]) 0 = 0" by code_simp
  moreover have "getCompletedSets (completeSet (newExecutor [itemX\<lparr>sets := Num (- 1)\<rparr>]) 0) 0 = 0"
    by code_simp
  ultimately show ?thesis by (intro conjI)
qed

section \<open>The validator\<close>

lemma firstPass_snoc:
  "firstPass (xs @ [x]) i gm = recordItem x (i + length xs) (firstPass xs i gm)"
  by (induction xs arbitrary: i gm) simp_all

lemma membersOf_snoc:
  "membersOf (xs @ [x]) g = membersOf xs g @ (if groupKey x = g then [length xs] else [])"
proof -
  have "filter (\<lambda>i. groupKey ((xs @ [x]) ! i) = g) [0..<length xs]
          = filter (\<lambda>i. groupKey (xs ! i) = g) [0..<length xs]"
    by (rule filter_cong) (simp_all add: nth_append)
  then show ?thesis by (simp add: membersOf_def)
qed

lemma secondPass_acc:
  "secondPass items gm acc =
     acc @ map (\<lambda>(gid, info). issueFor items gid info (int (lastIndex info) - int (firstIndex info) + 1))
             (filter (\<lambda>(gid, info). int (length (indices info)) \<noteq> int (lastIndex info) - int (firstIndex info) + 1) gm)"
  by (induction gm arbitrary: acc) (auto simp: Let_def)

lemma gapsFrom_filter:
  "gapsFrom items idxs i l acc = acc @ map (gapAt items) (filter (\<lambda>j. j \<notin> set idxs) [i..<Suc l])"
proof (induction items idxs i l acc rule: gapsFrom.induct)
  case (1 items idxs i lastIdx gaps)
  show ?case
  proof (cases "i \<le> lastIdx")
    case True
    then have "[i..<Suc lastIdx] = i # [i + 1..<Suc lastIdx]"
      by (simp add: upt_conv_Cons)
    with True 1 show ?thesis by (subst gapsFrom.simps) simp
  next
    case False
    then show ?thesis by (subst gapsFrom.simps) simp
  qed
qed


lemma membersOf_falsy_unchanged:
  "groupKey x \<noteq> g \<Longrightarrow> membersOf (xs @ [x]) g = membersOf xs g"
  by (simp add: membersOf_snoc)

lemma infoOf_unchanged:
  "groupKey x \<noteq> g \<Longrightarrow> infoOf (xs @ [x]) g = infoOf xs g"
  by (simp add: infoOf_def membersOf_falsy_unchanged)

lemma infoOf_extended:
  "membersOf xs g \<noteq> [] \<Longrightarrow> groupKey x = g \<Longrightarrow>
     infoOf (xs @ [x]) g = (infoOf xs g)\<lparr>lastIndex := length xs, indices := indices (infoOf xs g) @ [length xs]\<rparr>"
  by (simp add: infoOf_def membersOf_snoc)

lemma infoOf_new:
  "membersOf xs g = [] \<Longrightarrow> groupKey x = g \<Longrightarrow>
     infoOf (xs @ [x]) g = \<lparr>firstIndex = length xs, lastIndex = length xs, indices = [length xs]\<rparr>"
  by (simp add: infoOf_def membersOf_snoc)

lemma recordItem_ok:
  assumes ok: "mapOk xs gm"
  shows "mapOk (xs @ [x]) (recordItem x (length xs) gm)"
proof -
  let ?k = "groupKey x"
  from ok have dist: "distinct (map fst gm)"
    and ent: "\<And>g info. (g, info) \<in> set gm \<Longrightarrow> truthy g \<and> membersOf xs g \<noteq> [] \<and> info = infoOf xs g"
    and all: "\<And>g. truthy g \<Longrightarrow> membersOf xs g \<noteq> [] \<Longrightarrow> g \<in> fst ` set gm"
    by (auto simp: mapOk_def)
  show ?thesis
  proof (cases "truthy ?k")
    case False
    then have same: "recordItem x (length xs) gm = gm" by (simp add: recordItem_def)
    have ne: "?k \<noteq> g" if "truthy g" for g using that False by auto
    have e: "truthy g \<and> membersOf (xs @ [x]) g \<noteq> [] \<and> info = infoOf (xs @ [x]) g"
      if "(g, info) \<in> set gm" for g info
      using ent [OF that] ne [of g] by (simp add: membersOf_falsy_unchanged infoOf_unchanged)
    have a: "g \<in> fst ` set gm" if "truthy g" and "membersOf (xs @ [x]) g \<noteq> []" for g
      using all [OF that(1)] that(2) ne [OF that(1)] by (simp add: membersOf_falsy_unchanged)
    show ?thesis
      unfolding same mapOk_def using dist e a by blast
  next
    case True
    note tk = True
    show ?thesis
    proof (cases "map_of gm ?k = None")
      case True
      then have notin: "?k \<notin> fst ` set gm" by (simp add: map_of_eq_None_iff)
      then have empty: "membersOf xs ?k = []" using all [OF tk] by auto
      have new: "recordItem x (length xs) gm
                  = gm @ [(?k, \<lparr>firstIndex = length xs, lastIndex = length xs, indices = [length xs]\<rparr>)]"
        using tk True by (simp add: recordItem_def Let_def)
      have old: "g \<noteq> ?k" if "(g, info) \<in> set gm" for g info
        using that notin by force
      have d: "distinct (map fst (gm @ [(?k, \<lparr>firstIndex = length xs, lastIndex = length xs, indices = [length xs]\<rparr>)]))"
        using dist notin by simp
      have e: "truthy g \<and> membersOf (xs @ [x]) g \<noteq> [] \<and> info = infoOf (xs @ [x]) g"
        if "(g, info) \<in> set (gm @ [(?k, \<lparr>firstIndex = length xs, lastIndex = length xs, indices = [length xs]\<rparr>)])"
        for g info
      proof (cases "(g, info) \<in> set gm")
        case True
        with ent [OF True] old [OF True] show ?thesis
          by (simp add: membersOf_falsy_unchanged infoOf_unchanged)
      next
        case False
        with that have "g = ?k" and "info = \<lparr>firstIndex = length xs, lastIndex = length xs, indices = [length xs]\<rparr>"
          by auto
        with tk empty show ?thesis by (simp add: infoOf_new membersOf_snoc)
      qed
      have a: "g \<in> fst ` set (gm @ [(?k, \<lparr>firstIndex = length xs, lastIndex = length xs, indices = [length xs]\<rparr>)])"
        if "truthy g" and "membersOf (xs @ [x]) g \<noteq> []" for g
      proof (cases "g = ?k")
        case True
        then show ?thesis by simp
      next
        case False
        with that have "membersOf xs g \<noteq> []" by (simp add: membersOf_snoc)
        with all [OF that(1)] show ?thesis by auto
      qed
      show ?thesis unfolding new mapOk_def using d e a by blast
    next
      case False
      then have isin: "?k \<in> fst ` set gm" by (simp add: map_of_eq_None_iff)
      let ?f = "\<lambda>(k, group). if k = ?k
                          then (k, group\<lparr>lastIndex := length xs, indices := indices group @ [length xs]\<rparr>)
                          else (k, group)"
      have upd: "recordItem x (length xs) gm = map ?f gm"
        using tk False by (simp add: recordItem_def Let_def)
      have keys: "map fst (map ?f gm) = map fst gm"
        by (induction gm) (auto split: prod.splits)
      have e: "truthy g \<and> membersOf (xs @ [x]) g \<noteq> [] \<and> info = infoOf (xs @ [x]) g"
        if "(g, info) \<in> set (map ?f gm)" for g info
      proof -
        from that obtain g0 info0 where in0: "(g0, info0) \<in> set gm" and eq: "(g, info) = ?f (g0, info0)"
          by auto
        note p = ent [OF in0]
        show ?thesis
        proof (cases "g0 = ?k")
          case True
          with eq p show ?thesis by (simp add: infoOf_extended membersOf_snoc)
        next
          case False
          with eq p show ?thesis by (simp add: infoOf_unchanged membersOf_falsy_unchanged)
        qed
      qed
      have a: "g \<in> fst ` set (map ?f gm)" if "truthy g" and "membersOf (xs @ [x]) g \<noteq> []" for g
      proof (cases "g = ?k")
        case True
        with isin show ?thesis using keys by (metis set_map)
      next
        case False
        with that have "membersOf xs g \<noteq> []" by (simp add: membersOf_snoc)
        with all [OF that(1)] have "g \<in> fst ` set gm" by auto
        then show ?thesis using keys by (metis set_map)
      qed
      show ?thesis unfolding upd mapOk_def keys using dist e a by blast
    qed
  qed
qed

lemma firstPass_ok: "mapOk items (firstPass items 0 [])"
proof (induction items rule: rev_induct)
  case Nil
  show ?case by (simp add: mapOk_def membersOf_def)
next
  case (snoc x xs)
  then show ?case using recordItem_ok [of xs "firstPass xs 0 []" x] by (simp add: firstPass_snoc)
qed


lemma strict_sorted_bounds:
  "sorted_wrt (<) xs \<Longrightarrow> (x::nat) \<in> set xs \<Longrightarrow> hd xs \<le> x \<and> x \<le> last xs"
proof (induction xs)
  case Nil
  then show ?case by simp
next
  case (Cons a xs)
  show ?case
  proof (cases "xs = []")
    case True
    with Cons.prems show ?thesis by simp
  next
    case False
    then have "last xs \<in> set xs" by simp
    with Cons.prems have al: "a < last xs" by auto
    show ?thesis
    proof (cases "x = a")
      case True
      with al False show ?thesis by simp
    next
      case False
      with Cons.prems have xin: "x \<in> set xs" and s: "sorted_wrt (<) xs" and ax: "a < x" by auto
      from Cons.IH [OF s xin] ax \<open>xs \<noteq> []\<close> show ?thesis by simp
    qed
  qed
qed

lemma membersOf_sorted: "sorted_wrt (<) (membersOf items g)"
  by (simp add: membersOf_def sorted_wrt_filter)

lemma membersOf_set:
  "set (membersOf items g) = {i. i < length items \<and> groupKey (items ! i) = g}"
  by (auto simp: membersOf_def)

lemma membersOf_span:
  assumes "membersOf items g \<noteq> []"
  shows "hd (membersOf items g) \<le> last (membersOf items g)"
    and "length (membersOf items g) \<le> last (membersOf items g) - hd (membersOf items g) + 1"
proof -
  let ?m = "membersOf items g"
  have s: "sorted_wrt (<) ?m" by (rule membersOf_sorted)
  from assms have "hd ?m \<in> set ?m" by simp
  from strict_sorted_bounds [OF s this] show "hd ?m \<le> last ?m" by simp
  have "set ?m \<subseteq> {hd ?m..last ?m}"
    using strict_sorted_bounds [OF s] by auto
  then have "card (set ?m) \<le> card {hd ?m..last ?m}"
    by (intro card_mono) simp_all
  moreover have "card (set ?m) = length ?m"
    using s by (simp add: strict_sorted_iff distinct_card)
  ultimately show "length ?m \<le> last ?m - hd ?m + 1" by simp
qed

lemma bad_iff_interleaved:
  assumes "truthy g" and "membersOf items g \<noteq> []"
  shows "int (length (indices (infoOf items g)))
           \<noteq> int (lastIndex (infoOf items g)) - int (firstIndex (infoOf items g)) + 1
         \<longleftrightarrow> interleaved items g"
  using assms membersOf_span [OF assms(2)]
  by (auto simp: infoOf_def interleaved_def)

lemma distinct_count:
  "distinct xs \<Longrightarrow> length (filter (\<lambda>x. x = g) xs) = (if g \<in> set xs then 1 else 0)"
  by (induction xs) auto

lemma issues_eq:
  "issues (validateGroupConfiguration items) =
     map (\<lambda>(gid, info). issueFor items gid info (int (lastIndex info) - int (firstIndex info) + 1))
       (filter (\<lambda>(gid, info). int (length (indices info)) \<noteq> int (lastIndex info) - int (firstIndex info) + 1)
          (firstPass items 0 []))"
  by (cases items) (simp_all add: validateGroupConfiguration_def Let_def secondPass_acc)

lemma isValid_eq:
  "isValid (validateGroupConfiguration items) \<longleftrightarrow> issues (validateGroupConfiguration items) = []"
  by (simp add: validateGroupConfiguration_def Let_def)

lemma issue_groupIds:
  "map groupId (issues (validateGroupConfiguration items)) =
     map fst (filter (\<lambda>(gid, info). int (length (indices info)) \<noteq> int (lastIndex info) - int (firstIndex info) + 1)
          (firstPass items 0 []))"
  unfolding issues_eq by (simp add: comp_def case_prod_unfold issueFor_def)

lemma issue_groupIds_distinct:
  "distinct (map groupId (issues (validateGroupConfiguration items)))"
  unfolding issue_groupIds using firstPass_ok [of items]
  by (simp add: mapOk_def distinct_map_filter)

lemma issue_groupIds_set:
  "g \<in> set (map groupId (issues (validateGroupConfiguration items))) \<longleftrightarrow> interleaved items g"
proof
  let ?gm = "firstPass items 0 []"
  note ok = firstPass_ok [of items]
  {
    assume "g \<in> set (map groupId (issues (validateGroupConfiguration items)))"
    then obtain info where in_gm: "(g, info) \<in> set ?gm"
      and bad: "int (length (indices info)) \<noteq> int (lastIndex info) - int (firstIndex info) + 1"
      unfolding issue_groupIds by auto
    from ok in_gm have "truthy g" "membersOf items g \<noteq> []" "info = infoOf items g"
      by (auto simp: mapOk_def)
    with bad show "interleaved items g" using bad_iff_interleaved [of g items] by simp
  }
  {
    assume il: "interleaved items g"
    then have t: "truthy g" and ne: "membersOf items g \<noteq> []" by (simp_all add: interleaved_def)
    with ok have "g \<in> fst ` set ?gm" by (simp add: mapOk_def)
    then obtain info where in_gm: "(g, info) \<in> set ?gm" by auto
    with ok have "info = infoOf items g" by (auto simp: mapOk_def)
    with il have "int (length (indices info)) \<noteq> int (lastIndex info) - int (firstIndex info) + 1"
      using bad_iff_interleaved [OF t ne] by simp
    with in_gm show "g \<in> set (map groupId (issues (validateGroupConfiguration items)))"
      unfolding issue_groupIds by force
  }
qed

lemma issue_count:
  "length (filter (\<lambda>iss. groupId iss = g) (issues (validateGroupConfiguration items)))
     = (if interleaved items g then 1 else 0)"
proof -
  have "length (filter (\<lambda>iss. groupId iss = g) (issues (validateGroupConfiguration items)))
          = length (filter (\<lambda>x. x = g) (map groupId (issues (validateGroupConfiguration items))))"
    by (simp add: filter_map comp_def)
  also have "\<dots> = (if g \<in> set (map groupId (issues (validateGroupConfiguration items))) then 1 else 0)"
    by (rule distinct_count [OF issue_groupIds_distinct])
  finally show ?thesis unfolding issue_groupIds_set .
qed

lemma gapIndex_gapAt: "gapIndex (gapAt items i) = i"
  by (simp add: gapAt_def Let_def)

lemma issue_details:
  assumes "iss \<in> set (issues (validateGroupConfiguration items))"
  shows "severity iss = ''warning''"
    and "interleaved items (groupId iss)"
    and "groupItemCount iss = length (membersOf items (groupId iss))"
    and "spaceOccupied iss
           = int (last (membersOf items (groupId iss))) - int (hd (membersOf items (groupId iss))) + 1"
    and "map gapIndex (interleavedItems iss) = nonMembersInSpan items (groupId iss)"
proof -
  let ?gm = "firstPass items 0 []"
  from assms obtain g info where in_gm: "(g, info) \<in> set ?gm"
    and iss: "iss = issueFor items g info (int (lastIndex info) - int (firstIndex info) + 1)"
    unfolding issues_eq by auto
  from firstPass_ok [of items] in_gm have info: "info = infoOf items g"
    by (auto simp: mapOk_def)
  have gid: "groupId iss = g" by (simp add: iss issueFor_def)
  show "severity iss = ''warning''" by (simp add: iss issueFor_def)
  show "interleaved items (groupId iss)"
    using assms issue_groupIds_set [of "groupId iss" items] by simp
  show "groupItemCount iss = length (membersOf items (groupId iss))"
    by (simp add: iss issueFor_def info infoOf_def)
  show "spaceOccupied iss
           = int (last (membersOf items (groupId iss))) - int (hd (membersOf items (groupId iss))) + 1"
    by (simp add: iss issueFor_def info infoOf_def)
  show "map gapIndex (interleavedItems iss) = nonMembersInSpan items (groupId iss)"
    by (simp add: iss issueFor_def info infoOf_def gapsFrom_filter comp_def gapIndex_gapAt
          nonMembersInSpan_def)
qed

lemma contiguous_not_interleaved:
  assumes "contiguousGroups items"
  shows "\<not> interleaved items g"
proof
  assume il: "interleaved items g"
  let ?m = "membersOf items g"
  from il have t: "truthy g" and ne: "?m \<noteq> []"
    and lt: "length ?m < last ?m - hd ?m + 1"
    by (simp_all add: interleaved_def)
  from ne have "hd ?m \<in> set ?m" and "last ?m \<in> set ?m" by simp_all
  then have h: "hd ?m < length items" "groupKey (items ! hd ?m) = g"
    and l: "last ?m < length items" "groupKey (items ! last ?m) = g"
    by (simp_all add: membersOf_set)
  have "j \<in> set ?m" if "hd ?m \<le> j" and "j \<le> last ?m" for j
  proof (cases "j = hd ?m \<or> j = last ?m")
    case True
    with ne show ?thesis by auto
  next
    case False
    with that have "hd ?m < j" "j < last ?m" by simp_all
    with assms h l t have "groupKey (items ! j) = g"
      unfolding contiguousGroups_def by (auto simp: Ball_def)
    with \<open>j < last ?m\<close> l show ?thesis by (simp add: membersOf_set)
  qed
  then have "{hd ?m..last ?m} \<subseteq> set ?m" by auto
  then have "card {hd ?m..last ?m} \<le> card (set ?m)" by (intro card_mono) simp_all
  also have "\<dots> \<le> length ?m" by (rule card_length)
  finally show False using lt membersOf_span(1) [OF ne] by simp
qed

lemma contiguous_valid:
  assumes "contiguousGroups items"
  shows "issues (validateGroupConfiguration items) = []"
proof (rule ccontr)
  assume "issues (validateGroupConfiguration items) \<noteq> []"
  then obtain iss where "iss \<in> set (issues (validateGroupConfiguration items))"
    by (cases "issues (validateGroupConfiguration items)") auto
  from issue_details(2) [OF this] contiguous_not_interleaved [OF assms] show False by simp
qed


lemma interleaved_iff_gap:
  "interleaved items g \<longleftrightarrow>
     truthy g \<and> membersOf items g \<noteq> [] \<and> nonMembersInSpan items g \<noteq> []"
proof (cases "truthy g \<and> membersOf items g \<noteq> []")
  case False
  then show ?thesis by (auto simp: interleaved_def)
next
  case True
  let ?m = "membersOf items g"
  from True have ne: "?m \<noteq> []" by simp
  have s: "sorted_wrt (<) ?m" by (rule membersOf_sorted)
  have sub: "set ?m \<subseteq> {hd ?m..last ?m}"
    using strict_sorted_bounds [OF s] by auto
  have card: "card (set ?m) = length ?m"
    using s by (simp add: strict_sorted_iff distinct_card)
  have span: "card {hd ?m..last ?m} = last ?m - hd ?m + 1"
    using membersOf_span(1) [OF ne] by simp
  have "nonMembersInSpan items g \<noteq> [] \<longleftrightarrow> set ?m \<noteq> {hd ?m..last ?m}"
    using sub by (auto simp: nonMembersInSpan_def filter_empty_conv)
  also have "\<dots> \<longleftrightarrow> card (set ?m) < card {hd ?m..last ?m}"
  proof
    assume "set ?m \<noteq> {hd ?m..last ?m}"
    with sub have "set ?m \<subset> {hd ?m..last ?m}" by auto
    then show "card (set ?m) < card {hd ?m..last ?m}" by (intro psubset_card_mono) simp_all
  next
    assume "card (set ?m) < card {hd ?m..last ?m}"
    then show "set ?m \<noteq> {hd ?m..last ?m}" by auto
  qed
  finally have "nonMembersInSpan items g \<noteq> [] \<longleftrightarrow> length ?m < last ?m - hd ?m + 1"
    unfolding card span .
  with True show ?thesis by (simp add: interleaved_def)
qed

text \<open>
  Claim C7. For every plan and every group the validator emits one issue, of severity
  warning, when the group has fewer members than \<open>lastIndex - firstIndex + 1\<close>, that is
  when some index inside its span is not a member, and no issue otherwise. Each issue lists
  the indices of its span that are not members. \<^verbatim>\<open>isValid\<close> holds exactly when there
  is no issue; a plan whose groups all occupy contiguous index ranges, the empty plan
  included, is valid with no issue.
\<close>

theorem validateGroupConfiguration_issues:
  "length (filter (\<lambda>iss. groupId iss = g) (issues (validateGroupConfiguration items)))
     = (if interleaved items g then 1 else 0)
   \<and> (interleaved items g \<longleftrightarrow>
        truthy g \<and> membersOf items g \<noteq> [] \<and> nonMembersInSpan items g \<noteq> [])
   \<and> (\<forall>iss \<in> set (issues (validateGroupConfiguration items)).
         severity iss = ''warning''
       \<and> groupItemCount iss = length (membersOf items (groupId iss))
       \<and> map gapIndex (interleavedItems iss) = nonMembersInSpan items (groupId iss))
   \<and> (isValid (validateGroupConfiguration items) \<longleftrightarrow> issues (validateGroupConfiguration items) = [])
   \<and> (contiguousGroups items \<longrightarrow>
        isValid (validateGroupConfiguration items) \<and> issues (validateGroupConfiguration items) = [])
   \<and> isValid (validateGroupConfiguration []) \<and> issues (validateGroupConfiguration []) = []"
proof (intro conjI ballI impI)
  show "length (filter (\<lambda>iss. groupId iss = g) (issues (validateGroupConfiguration items)))
     = (if interleaved items g then 1 else 0)"
    by (rule issue_count)
  show "interleaved items g \<longleftrightarrow>
        truthy g \<and> membersOf items g \<noteq> [] \<and> nonMembersInSpan items g \<noteq> []"
    by (rule interleaved_iff_gap)
  show "isValid (validateGroupConfiguration items) \<longleftrightarrow> issues (validateGroupConfiguration items) = []"
    by (rule isValid_eq)
  show "issues (validateGroupConfiguration items) = []" if "contiguousGroups items"
    using that by (rule contiguous_valid)
  then show "isValid (validateGroupConfiguration items)" if "contiguousGroups items"
    using that by (simp add: isValid_eq)
  show "isValid (validateGroupConfiguration [])" and "issues (validateGroupConfiguration []) = []"
    by (simp_all add: validateGroupConfiguration_def)
next
  fix iss assume "iss \<in> set (issues (validateGroupConfiguration items))"
  note d = issue_details [OF this]
  show "severity iss = ''warning''" by (rule d(1))
  show "groupItemCount iss = length (membersOf items (groupId iss))" by (rule d(3))
  show "map gapIndex (interleavedItems iss) = nonMembersInSpan items (groupId iss)" by (rule d(5))
qed

theorem validateGroupConfiguration_issues_witness:
  "interleaved nestedPlan (JStr ''1'')
   \<and> length (filter (\<lambda>iss. groupId iss = JStr ''1'') (issues (validateGroupConfiguration nestedPlan))) = 1
   \<and> hd (issues (validateGroupConfiguration nestedPlan)) \<in> set (issues (validateGroupConfiguration nestedPlan))
   \<and> map gapIndex (interleavedItems (hd (issues (validateGroupConfiguration nestedPlan)))) = [1]
   \<and> contiguousGroups contiguousPlan
   \<and> isValid (validateGroupConfiguration contiguousPlan)"
proof -
  have il: "interleaved nestedPlan (JStr ''1'')" by code_simp
  have ne: "issues (validateGroupConfiguration nestedPlan) \<noteq> []" by code_simp
  then have hd_in: "hd (issues (validateGroupConfiguration nestedPlan))
                      \<in> set (issues (validateGroupConfiguration nestedPlan))"
    by simp
  have gaps: "nonMembersInSpan nestedPlan (groupId (hd (issues (validateGroupConfiguration nestedPlan)))) = [1]"
    by code_simp
  have cg: "contiguousGroups contiguousPlan" by code_simp
  from validateGroupConfiguration_issues [of "JStr ''1''" nestedPlan] il hd_in gaps
  have "length (filter (\<lambda>iss. groupId iss = JStr ''1'') (issues (validateGroupConfiguration nestedPlan))) = 1"
    and "map gapIndex (interleavedItems (hd (issues (validateGroupConfiguration nestedPlan)))) = [1]"
    by auto
  moreover from validateGroupConfiguration_issues [of "JStr ''1''" contiguousPlan] cg
  have "isValid (validateGroupConfiguration contiguousPlan)" by auto
  ultimately show ?thesis using il hd_in cg by (intro conjI)
qed

section \<open>One item of another group between two members\<close>

text \<open>
  The validation tests: no group; two groups that interleave each other; and three groups,
  where the single item of group 3 lies inside group 1.
\<close>

lemma validate_tests:
  "isValid (validateGroupConfiguration [testItem ''test1'' JUndefined, testItem ''test2'' JUndefined])"
  "issues (validateGroupConfiguration [testItem ''test1'' JUndefined, testItem ''test2'' JUndefined]) = []"
  "\<not> isValid (validateGroupConfiguration interleavedPlan)"
  "map groupId (issues (validateGroupConfiguration interleavedPlan)) = [JStr ''1'', JStr ''2'']"
  "map groupId (issues (validateGroupConfiguration multiplePlan)) = [JStr ''1'', JStr ''2'']"
  by code_simp+

text \<open>
  Claim C8, as the validator has it. In the plan of the test of the formatted message, one
  item of group 2 between two items of group 1, the validator reports one issue, for
  group 1, and none for group 2.
\<close>

theorem validate_nestedPlan_one_issue:
  "map groupKey nestedPlan = [JStr ''1'', JStr ''2'', JStr ''1'']
   \<and> map groupId (issues (validateGroupConfiguration nestedPlan)) = [JStr ''1'']
   \<and> count_list (map groupId (issues (validateGroupConfiguration nestedPlan))) (JStr ''2'') = 0"
  by code_simp

lemma foreign_between_members:
  assumes "i < j" and "j < k" and "k < length items"
    and "truthy g" and "groupKey (items ! i) = g" and "groupKey (items ! k) = g"
    and "groupKey (items ! j) \<noteq> g"
  shows "j \<in> set (nonMembersInSpan items g)" and "interleaved items g"
proof -
  let ?m = "membersOf items g"
  have s: "sorted_wrt (<) ?m" by (rule membersOf_sorted)
  have i_in: "i \<in> set ?m" and k_in: "k \<in> set ?m" and j_out: "j \<notin> set ?m"
    using assms by (simp_all add: membersOf_set)
  have ne: "?m \<noteq> []" using i_in by auto
  from strict_sorted_bounds [OF s i_in] strict_sorted_bounds [OF s k_in] assms(1,2)
  have "hd ?m \<le> j" and "j \<le> last ?m" by simp_all
  with j_out show g: "j \<in> set (nonMembersInSpan items g)"
    by (simp add: nonMembersInSpan_def less_Suc_eq_le del: upt_Suc)
  then have "nonMembersInSpan items g \<noteq> []" by auto
  with assms(4) ne show "interleaved items g" by (simp add: interleaved_iff_gap)
qed

text \<open>
  Claim C8, amended. In every plan where an item of group 2 lies between two items of
  group 1, whatever the other items are, the validator produces exactly one issue for
  group 1, and that issue cites the index of the foreign item. It produces exactly one
  issue for group 2, citing the foreign index inside the span of group 2, whenever an item
  that is not of group 2 lies in turn between two items of group 2. The plan is not valid.
\<close>

theorem validate_sandwiched_member:
  assumes "i < j" and "j < k" and "k < length items"
    and "truthy g1" and "truthy g2" and "g1 \<noteq> g2"
    and "groupKey (items ! i) = g1" and "groupKey (items ! k) = g1"
    and "groupKey (items ! j) = g2"
  shows "length (filter (\<lambda>iss. groupId iss = g1) (issues (validateGroupConfiguration items))) = 1
       \<and> (\<forall>iss \<in> set (issues (validateGroupConfiguration items)).
             groupId iss = g1 \<longrightarrow> j \<in> set (map gapIndex (interleavedItems iss)))
       \<and> (\<forall>p q r. p < q \<and> q < r \<and> r < length items
               \<and> groupKey (items ! p) = g2 \<and> groupKey (items ! r) = g2
               \<and> groupKey (items ! q) \<noteq> g2
             \<longrightarrow> length (filter (\<lambda>iss. groupId iss = g2) (issues (validateGroupConfiguration items))) = 1
                \<and> (\<forall>iss \<in> set (issues (validateGroupConfiguration items)).
                      groupId iss = g2 \<longrightarrow> q \<in> set (map gapIndex (interleavedItems iss))))
       \<and> \<not> isValid (validateGroupConfiguration items)"
proof -
  let ?v = "validateGroupConfiguration items"
  have one: "length (filter (\<lambda>iss. groupId iss = g) (issues ?v)) = 1
             \<and> (\<forall>iss \<in> set (issues ?v). groupId iss = g \<longrightarrow> q \<in> set (map gapIndex (interleavedItems iss)))"
    if "p < q" "q < r" "r < length items" "truthy g"
       "groupKey (items ! p) = g" "groupKey (items ! r) = g" "groupKey (items ! q) \<noteq> g"
    for p q r g
  proof -
    note f = foreign_between_members [OF that]
    have "length (filter (\<lambda>iss. groupId iss = g) (issues ?v)) = 1"
      using f(2) by (simp add: issue_count)
    moreover have "q \<in> set (map gapIndex (interleavedItems iss))"
      if "iss \<in> set (issues ?v)" and "groupId iss = g" for iss
      using issue_details(5) [OF that(1)] that(2) f(1) by simp
    ultimately show ?thesis by blast
  qed
  have jne: "groupKey (items ! j) \<noteq> g1" using assms(6,9) by simp
  note first = one [OF assms(1,2,3,4,7,8) jne]
  have "issues ?v \<noteq> []"
  proof
    assume "issues ?v = []"
    with first show False by simp
  qed
  then have "\<not> isValid ?v" by (simp add: isValid_eq)
  moreover have "length (filter (\<lambda>iss. groupId iss = g2) (issues ?v)) = 1
                \<and> (\<forall>iss \<in> set (issues ?v). groupId iss = g2 \<longrightarrow> q \<in> set (map gapIndex (interleavedItems iss)))"
    if "p < q \<and> q < r \<and> r < length items
               \<and> groupKey (items ! p) = g2 \<and> groupKey (items ! r) = g2
               \<and> groupKey (items ! q) \<noteq> g2" for p q r
    using one [of p q r g2] that assms(5) by blast
  ultimately show ?thesis using first by blast
qed

theorem validate_sandwiched_member_witness:
  "groupKey (interleavedPlan ! 1) = JStr ''1'' \<and> groupKey (interleavedPlan ! 3) = JStr ''1''
   \<and> groupKey (interleavedPlan ! 2) = JStr ''2'' \<and> groupKey (interleavedPlan ! 4) = JStr ''2''
   \<and> length (filter (\<lambda>iss. groupId iss = JStr ''1'') (issues (validateGroupConfiguration interleavedPlan))) = 1
   \<and> length (filter (\<lambda>iss. groupId iss = JStr ''2'') (issues (validateGroupConfiguration interleavedPlan))) = 1
   \<and> groupId (issues (validateGroupConfiguration interleavedPlan) ! 0) = JStr ''1''
   \<and> 2 \<in> set (map gapIndex (interleavedItems (issues (validateGroupConfiguration interleavedPlan) ! 0)))
   \<and> groupId (issues (validateGroupConfiguration interleavedPlan) ! 1) = JStr ''2''
   \<and> 3 \<in> set (map gapIndex (interleavedItems (issues (validateGroupConfiguration interleavedPlan) ! 1)))"
proof -
  let ?v = "validateGroupConfiguration interleavedPlan"
  have h1: "(1::nat) < 2" and h2: "(2::nat) < 3" by simp_all
  have h3: "3 < length interleavedPlan" by code_simp
  have h4: "truthy (JStr ''1'')" and h5: "truthy (JStr ''2'')" and h6: "JStr ''1'' \<noteq> JStr ''2''"
    by simp_all
  have h7: "groupKey (interleavedPlan ! 1) = JStr ''1''" by code_simp
  have h8: "groupKey (interleavedPlan ! 3) = JStr ''1''" by code_simp
  have h9: "groupKey (interleavedPlan ! 2) = JStr ''2''" by code_simp
  have k4: "groupKey (interleavedPlan ! 4) = JStr ''2''" by code_simp
  have second: "(2::nat) < 3 \<and> (3::nat) < 4 \<and> 4 < length interleavedPlan
               \<and> groupKey (interleavedPlan ! 2) = JStr ''2'' \<and> groupKey (interleavedPlan ! 4) = JStr ''2''
               \<and> groupKey (interleavedPlan ! 3) \<noteq> JStr ''2''"
    by code_simp
  have i0: "issues ?v ! 0 \<in> set (issues ?v)" and g0: "groupId (issues ?v ! 0) = JStr ''1''"
    and i1: "issues ?v ! 1 \<in> set (issues ?v)" and g1: "groupId (issues ?v ! 1) = JStr ''2''"
    by code_simp+
  note t = validate_sandwiched_member [OF h1 h2 h3 h4 h5 h6 h7 h8 h9]
  have c1: "length (filter (\<lambda>iss. groupId iss = JStr ''1'') (issues ?v)) = 1"
    by (rule t [THEN conjunct1])
  have a1: "\<forall>iss \<in> set (issues ?v). groupId iss = JStr ''1'' \<longrightarrow> 2 \<in> set (map gapIndex (interleavedItems iss))"
    by (rule t [THEN conjunct2, THEN conjunct1])
  note u = t [THEN conjunct2, THEN conjunct2, THEN conjunct1, THEN spec, THEN spec, THEN spec,
              THEN mp, OF second]
  have c2: "length (filter (\<lambda>iss. groupId iss = JStr ''2'') (issues ?v)) = 1"
    by (rule u [THEN conjunct1])
  have a2: "\<forall>iss \<in> set (issues ?v). groupId iss = JStr ''2'' \<longrightarrow> 3 \<in> set (map gapIndex (interleavedItems iss))"
    by (rule u [THEN conjunct2])
  from a1 i0 g0 have "2 \<in> set (map gapIndex (interleavedItems (issues ?v ! 0)))" by auto
  moreover from a2 i1 g1 have "3 \<in> set (map gapIndex (interleavedItems (issues ?v ! 1)))" by auto
  ultimately show ?thesis using h7 h8 h9 k4 c1 c2 g0 g1 by (intro conjI)
qed

end
